theory Spec2Isabelle
  imports Main "HOL-Library.AList" "HOL-Library.Char_ord" "HOL-Library.List_Lexorder"
    "HOL-Library.Product_Lexorder" "HOL-Library.Option_ord" "HOL-Library.Multiset"
begin

section \<open>Strings and paths\<close>

text \<open>
  Python strings are modelled as \<open>string\<close>. With \<open>Char_ord\<close> and \<open>List_Lexorder\<close> the order
  on \<open>string\<close> is the lexicographic order by code point, which is the order Python's
  \<open>sorted\<close> uses on \<open>str\<close>. \<open>sort\<close> and \<open>sort_key\<close> are stable insertion sorts, as
  \<open>sorted\<close> is stable.
\<close>

text \<open>\<open>s.split(c)\<close> for a one-character separator: always at least one segment.\<close>

fun split_on :: "char \<Rightarrow> string \<Rightarrow> string list" where
  "split_on c [] = [[]]"
| "split_on c (x # xs) =
     (if x = c then [] # split_on c xs
      else (case split_on c xs of [] \<Rightarrow> [[x]] | w # ws \<Rightarrow> (x # w) # ws))"

text \<open>\<open>c.join(xs)\<close>.\<close>

fun join_on :: "char \<Rightarrow> string list \<Rightarrow> string" where
  "join_on c [] = []"
| "join_on c [x] = x"
| "join_on c (x # y # ys) = x @ c # join_on c (y # ys)"

definition sep :: char where
  "sep = CHR ''/''"

text \<open>
  Modelled from the spec: the module \<open>helper\<close> (imported by \<open>dataset.py\<close> with
  \<open>from .helper import *\<close>) is not among the sources. \<open>strip_empty_str_in_list\<close> removes
  the empty strings of a list, and \<open>str_to_list\<close> splits a path on the path separator
  into its segments ("splitting on path separators", "number of path segments").
\<close>

definition strip_empty_str_in_list :: "string list \<Rightarrow> string list" where
  "strip_empty_str_in_list xs = filter (\<lambda>s. s \<noteq> []) xs"

definition str_to_list :: "string \<Rightarrow> string list" where
  "str_to_list p = strip_empty_str_in_list (split_on sep p)"

text \<open>\<open>os.path.join(a, b)\<close> of \<open>posixpath\<close>, for two arguments.\<close>

definition path_join :: "string \<Rightarrow> string \<Rightarrow> string" where
  "path_join a b =
     (if b \<noteq> [] \<and> hd b = sep then b
      else if a = [] \<or> last a = sep then a @ b
      else a @ sep # b)"

section \<open>Data model\<close>

record FileItem =
  subject :: string
  session :: "string option"
  modal :: "string option"
  annotation :: "string option"
  absdir :: string
  filename :: string
  fileext :: string

text \<open>
  \<open>SessionItem.files\<close> is a list of files or a dict from modality to a list of files; a
  Python dict keeps insertion order, so it is an association list.
\<close>

datatype files = FList "FileItem list" | FDict "(string \<times> FileItem list) list"

record SessionItem =
  s_subject :: string
  s_session :: "string option"
  s_files :: files

record MaxDepthRef =
  single_session :: int
  multi_session :: int

definition ref_list :: "MaxDepthRef \<Rightarrow> int list" where
  "ref_list r = [single_session r, multi_session r]"

text \<open>\<open>DataItem.by_depth\<close>: depth to (relative path to sorted names).\<close>

type_synonym by_depth = "(int \<times> (string \<times> string list) list) list"

datatype error =
    DepthError int int int
  | KeyError_depth int
  | KeyError_path string
  | KeyError_modal string
  | UnpackError
  | IndexError
  | AttributeError
  | TypeError

datatype warning =
    SubjectExcluded string
  | SessionExcluded string
  | NotBidsFile string

section \<open>PathWalker: \<open>BaseParser._parse_all\<close>\<close>

text \<open>
  The file system below the scanned root: a directory has sub-directories (by name, in the
  order \<open>os.scandir\<close> lists them) and file names. \<open>walk\<close> is \<open>os.walk\<close> top-down: one triple
  \<open>(dirpath, dirnames, filenames)\<close> per directory. A root that does not exist is \<open>None\<close>;
  \<open>os.walk\<close> then yields nothing.
\<close>

datatype fsnode = Dir "(string \<times> fsnode) list" "string list"

fun walk :: "string \<Rightarrow> fsnode \<Rightarrow> (string \<times> string list \<times> string list) list"
  and walks :: "string \<Rightarrow> (string \<times> fsnode) list \<Rightarrow> (string \<times> string list \<times> string list) list"
  where
  "walk dirpath (Dir ds fs) = (dirpath, map fst ds, fs) # walks dirpath ds"
| "walks dirpath [] = []"
| "walks dirpath (d # ds) = walk (path_join dirpath (fst d)) (snd d) @ walks dirpath ds"

definition os_walk :: "string \<Rightarrow> fsnode option \<Rightarrow> (string \<times> string list \<times> string list) list" where
  "os_walk root fs = (case fs of None \<Rightarrow> [] | Some t \<Rightarrow> walk root t)"

text \<open>
  \<open>if depth not in d.keys(): d[depth] = dict()\<close> followed by \<open>d[depth][key] = sorted(names)\<close>.
\<close>

definition store_entry :: "by_depth \<Rightarrow> int \<Rightarrow> string \<Rightarrow> string list \<Rightarrow> by_depth" where
  "store_entry bd depth key names =
     (let inner = (case map_of bd depth of None \<Rightarrow> [] | Some d \<Rightarrow> d)
      in AList.update depth (AList.update key (sort names) inner) bd)"

record parsed =
  max_depth :: int
  files_by_depth :: by_depth
  dirs_by_depth :: by_depth

text \<open>One iteration of the loop over \<open>os.walk\<close>.\<close>

definition parse_step :: "nat \<Rightarrow> bool \<Rightarrow> parsed \<Rightarrow> string \<times> string list \<times> string list \<Rightarrow> parsed" where
  "parse_step abs_path_depth dir_only p w =
     (case w of (dirpath, dirnames, filenames) \<Rightarrow>
        let relpath = drop abs_path_depth (str_to_list dirpath);
            depth_step = int (length relpath);
            p1 = (if dirnames = []
                  then (if depth_step > max_depth p then p\<lparr>max_depth := depth_step\<rparr> else p)
                  else p\<lparr>dirs_by_depth :=
                          store_entry (dirs_by_depth p) depth_step (join_on sep relpath) dirnames\<rparr>)
        in (if \<not> dir_only \<and> filenames \<noteq> []
            then p1\<lparr>files_by_depth :=
                      store_entry (files_by_depth p1) depth_step (join_on sep relpath) filenames\<rparr>
            else p1))"

text \<open>
  \<open>_init_process\<close> and \<open>_parse_all\<close>. The path given to the parser is taken to be absolute
  and normalised already, so that \<open>os.path.abspath\<close> returns it unchanged.
\<close>

definition abs_path_list :: "string \<Rightarrow> string list" where
  "abs_path_list abs_path = strip_empty_str_in_list (split_on sep abs_path)"

definition parse_all :: "string \<Rightarrow> bool \<Rightarrow> fsnode option \<Rightarrow> parsed" where
  "parse_all abs_path dir_only fs =
     foldl (parse_step (length (abs_path_list abs_path)) dir_only)
       \<lparr>max_depth = 0, files_by_depth = [], dirs_by_depth = []\<rparr>
       (os_walk abs_path fs)"

section \<open>Validator: \<open>BaseParser._validator\<close>\<close>

definition alnum :: "char \<Rightarrow> bool" where
  "alnum c = (let n = (of_char c :: nat) in
     (48 \<le> n \<and> n \<le> 57) \<or> (65 \<le> n \<and> n \<le> 90) \<or> (97 \<le> n \<and> n \<le> 122))"

text \<open>
  \<open>re.compile(r'sub-[a-zA-Z0-9]+').match(s) != None\<close>: \<open>match\<close> anchors at the start only, so
  the name matches when it starts with the prefix and one alphanumeric character.
\<close>

definition prefix_alnum :: "string \<Rightarrow> string \<Rightarrow> bool" where
  "prefix_alnum pre s =
     (take (length pre) s = pre \<and>
      (case drop (length pre) s of [] \<Rightarrow> False | c # cs \<Rightarrow> alnum c))"

definition subj_pattern :: "string \<Rightarrow> bool" where
  "subj_pattern s = prefix_alnum ''sub-'' s"

definition sess_pattern :: "string \<Rightarrow> bool" where
  "sess_pattern s = prefix_alnum ''ses-'' s"

text \<open>
  \<open>sub-[a-zA-Z0-9]+(_ses-[a-zA-Z0-9]+)?.*\<close>: the optional group and the trailing \<open>.*\<close> match
  the empty string, so a prefix match of the subject part decides.
\<close>

definition file_pattern :: "string \<Rightarrow> bool" where
  "file_pattern s = prefix_alnum ''sub-'' s"

text \<open>\<open>[s for i, s in enumerate(names) if flags[i]]\<close>\<close>

definition narrow :: "bool list \<Rightarrow> string list \<Rightarrow> string list" where
  "narrow flags names = map snd (filter (\<lambda>p. flags ! fst p) (enumerate 0 names))"

text \<open>
  The loop \<open>for i, subj in enumerate(subjects)\<close>: the iterator runs over the list bound
  when the loop starts; the body warns when \<open>flags[i]\<close> holds and rebinds the name to the
  narrowed list in every iteration.
\<close>

fun exclude_loop ::
  "(string \<Rightarrow> warning) \<Rightarrow> bool list \<Rightarrow> (nat \<times> string) list \<Rightarrow>
     warning list \<times> string list \<Rightarrow> warning list \<times> string list" where
  "exclude_loop mk flags [] acc = acc"
| "exclude_loop mk flags (p # rest) acc =
     exclude_loop mk flags rest
       ((if flags ! fst p then fst acc @ [mk (snd p)] else fst acc), narrow flags (snd acc))"

definition validate_names ::
  "(string \<Rightarrow> bool) \<Rightarrow> (string \<Rightarrow> warning) \<Rightarrow> string list \<Rightarrow> warning list \<times> string list" where
  "validate_names pat mk names =
     (let flags = map pat names
      in if \<not> list_all (\<lambda>b. b) flags
         then exclude_loop mk flags (enumerate 0 names) ([], names)
         else ([], names))"

text \<open>The names of all values of an inner dict, in order.\<close>

definition all_values :: "(string \<times> string list) list \<Rightarrow> string list" where
  "all_values d = concat (map snd d)"

definition validate_sessions ::
  "by_depth \<Rightarrow> int \<Rightarrow> MaxDepthRef \<Rightarrow> error + (warning list \<times> string list option)" where
  "validate_sessions dirs md ref =
     (if md = multi_session ref
      then (case map_of dirs (multi_session ref) of
              None \<Rightarrow> Inl (KeyError_depth (multi_session ref))
            | Some d \<Rightarrow>
                (case validate_names sess_pattern SessionExcluded (sort (remdups (all_values d))) of
                   (ws, ss) \<Rightarrow> Inr (ws, Some ss)))
      else Inr ([], None))"

definition validate_files :: "by_depth \<Rightarrow> int \<Rightarrow> bool \<Rightarrow> error + warning list" where
  "validate_files files md dir_only =
     (if \<not> dir_only
      then (case map_of files md of
              None \<Rightarrow> Inl (KeyError_depth md)
            | Some d \<Rightarrow>
                (if filter (\<lambda>f. \<not> file_pattern f) (sort (all_values d)) \<noteq> []
                 then Inr (concat (map (\<lambda>e. map (\<lambda>f. NotBidsFile (path_join (fst e) f)) (snd e)) d))
                 else Inr []))
      else Inr [])"

definition validate_modals :: "by_depth \<Rightarrow> int \<Rightarrow> bool \<Rightarrow> error + string list option" where
  "validate_modals dirs md m =
     (if m
      then (case map_of dirs (md - 1) of
              None \<Rightarrow> Inl (KeyError_depth (md - 1))
            | Some d \<Rightarrow> Inr (Some (sort (remdups (all_values d)))))
      else Inr None)"

text \<open>
  The result is the tuple \<open>(subjects, sessions, modals)\<close> the method returns, with the
  warnings it issued on the way, in order.
\<close>

definition validator ::
  "by_depth \<Rightarrow> by_depth \<Rightarrow> int \<Rightarrow> MaxDepthRef \<Rightarrow> bool \<Rightarrow> bool \<Rightarrow>
     error + (warning list \<times> string list \<times> string list option \<times> string list option)" where
  "validator dirs files md ref m dir_only =
     (if md \<notin> set (ref_list ref)
      then Inl (DepthError md (single_session ref) (multi_session ref))
      else (case map_of dirs 0 of
              None \<Rightarrow> Inl (KeyError_depth 0)
            | Some d0 \<Rightarrow>
          (case map_of d0 [] of
              None \<Rightarrow> Inl (KeyError_path [])
            | Some names \<Rightarrow>
          (case validate_names subj_pattern SubjectExcluded (sort names) of (w1, subjects) \<Rightarrow>
          (case validate_sessions dirs md ref of
              Inl e \<Rightarrow> Inl e
            | Inr (w2, sessions) \<Rightarrow>
          (case validate_files files md dir_only of
              Inl e \<Rightarrow> Inl e
            | Inr w3 \<Rightarrow>
          (case validate_modals dirs md m of
              Inl e \<Rightarrow> Inl e
            | Inr modals \<Rightarrow> Inr (w1 @ w2 @ w3, subjects, sessions, modals))))))))"

section \<open>Constructor: \<open>BaseParser._constructor\<close>\<close>

text \<open>
  The parameter \<open>modal\<close> of \<open>_constructor\<close> starts as a \<open>bool\<close> and is rebound inside the
  loop, to the modality name (a \<open>str\<close>) or to \<open>None\<close>; the next iteration tests the
  rebound value for truth.
\<close>

datatype modalvar = MBool bool | MStr string | MNone

fun truthy :: "modalvar \<Rightarrow> bool" where
  "truthy (MBool b) = b"
| "truthy (MStr s) = (s \<noteq> [])"
| "truthy MNone = False"

fun modal_of :: "string option \<Rightarrow> modalvar" where
  "modal_of None = MNone"
| "modal_of (Some s) = MStr s"

text \<open>
  "parse meta data": the result is \<open>(subj, sess, modal)\<close> after the branch. Unpacking a list
  of the wrong length raises \<open>ValueError\<close> (\<open>UnpackError\<close>), \<open>[][0]\<close> raises \<open>IndexError\<close>.
\<close>

definition parse_meta ::
  "int \<Rightarrow> MaxDepthRef \<Rightarrow> modalvar \<Rightarrow> string \<Rightarrow> error + (string \<times> string option \<times> string option)" where
  "parse_meta md ref mv sess_path =
     (let segs = str_to_list sess_path in
      if md = single_session ref then
        (if truthy mv
         then (case segs of [subj, m] \<Rightarrow> Inr (subj, None, Some m) | _ \<Rightarrow> Inl UnpackError)
         else (case segs of [] \<Rightarrow> Inl IndexError | subj # _ \<Rightarrow> Inr (subj, None, None)))
      else if md = multi_session ref then
        (if truthy mv
         then (case segs of [subj, sess, m] \<Rightarrow> Inr (subj, Some sess, Some m) | _ \<Rightarrow> Inl UnpackError)
         else (case segs of [subj, sess] \<Rightarrow> Inr (subj, Some sess, None) | _ \<Rightarrow> Inl UnpackError))
      else Inl (DepthError md (single_session ref) (multi_session ref)))"

text \<open>\<open>f"{subj}-{sess}"\<close>; \<open>None\<close> formats as \<open>None\<close>.\<close>

definition task_id :: "string \<Rightarrow> string option \<Rightarrow> string" where
  "task_id subj sess = subj @ ''-'' @ (case sess of None \<Rightarrow> ''None'' | Some s \<Rightarrow> s)"

text \<open>
  \<open>[si for si in session_list if si.subject == subj and si.session == sess][0]\<close>, as the
  position of that object in \<open>session_list\<close>; \<open>None\<close> is the \<open>IndexError\<close>.
\<close>

fun find_session :: "string \<Rightarrow> string option \<Rightarrow> SessionItem list \<Rightarrow> nat option" where
  "find_session subj sess [] = None"
| "find_session subj sess (si # sis) =
     (if s_subject si = subj \<and> s_session si = sess then Some 0
      else map_option Suc (find_session subj sess sis))"

text \<open>\<open>filename, fileext = f.split('.', 1)\<close>; \<open>None\<close> when the unpacking fails.\<close>

definition split_name :: "string \<Rightarrow> (string \<times> string) option" where
  "split_name f =
     (if CHR ''.'' \<in> set f
      then Some (takeWhile (\<lambda>c. c \<noteq> CHR ''.'') f, tl (dropWhile (\<lambda>c. c \<noteq> CHR ''.'') f))
      else None)"

text \<open>The \<open>FileItem(...)\<close> built for one file name.\<close>

definition make_file ::
  "string \<Rightarrow> string \<Rightarrow> string \<times> string option \<times> string option \<Rightarrow> string \<Rightarrow> error + FileItem" where
  "make_file abs_path sess_path meta f =
     (case split_name f of
        None \<Rightarrow> Inl UnpackError
      | Some (fname, fext) \<Rightarrow>
          (case abs_path_list abs_path of
             [] \<Rightarrow> Inl IndexError
           | x # xs \<Rightarrow>
               Inr \<lparr>subject = fst meta, session = fst (snd meta), modal = snd (snd meta),
                    annotation = Some (last (x # xs)),
                    absdir = path_join abs_path sess_path,
                    filename = fname, fileext = fext\<rparr>))"

text \<open>
  The body of \<open>for f in filenames\<close>, on the session object \<open>sinfo\<close> and \<open>file_list\<close>. A list
  has no \<open>keys\<close> and a dict no \<open>append\<close>: \<open>AttributeError\<close>.
\<close>

definition add_file ::
  "string \<Rightarrow> string \<Rightarrow> string \<times> string option \<times> string option \<Rightarrow>
     SessionItem \<times> FileItem list \<Rightarrow> string \<Rightarrow> error + (SessionItem \<times> FileItem list)" where
  "add_file abs_path sess_path meta acc f =
     (case make_file abs_path sess_path meta f of
        Inl e \<Rightarrow> Inl e
      | Inr finfo \<Rightarrow>
          (if truthy (modal_of (snd (snd meta)))
           then (case s_files (fst acc) of
                   FDict d \<Rightarrow>
                     Inr ((fst acc)\<lparr>s_files := FDict
                            (AList.update (the (snd (snd meta)))
                               ((case map_of d (the (snd (snd meta))) of None \<Rightarrow> [] | Some xs \<Rightarrow> xs)
                                  @ [finfo]) d)\<rparr>,
                          snd acc @ [finfo])
                 | FList xs \<Rightarrow> Inl AttributeError)
           else (case s_files (fst acc) of
                   FList xs \<Rightarrow> Inr ((fst acc)\<lparr>s_files := FList (xs @ [finfo])\<rparr>, snd acc @ [finfo])
                 | FDict d \<Rightarrow> Inl AttributeError)))"

text \<open>A loop whose body may raise: the first error ends it.\<close>

fun fold_err :: "('s \<Rightarrow> 'a \<Rightarrow> error + 's) \<Rightarrow> 's \<Rightarrow> 'a list \<Rightarrow> error + 's" where
  "fold_err f s [] = Inr s"
| "fold_err f s (x # xs) = (case f s x of Inl e \<Rightarrow> Inl e | Inr s' \<Rightarrow> fold_err f s' xs)"

text \<open>
  The sort of the session's file collection after the inner loop. \<open>sorted\<close> over a dict
  runs over its keys: the key function then reads \<open>modal\<close> of a \<open>str\<close>, unless the dict is
  empty.
\<close>

definition sort_session_files :: "string option \<Rightarrow> SessionItem \<Rightarrow> error + SessionItem" where
  "sort_session_files m sinfo =
     (if truthy (modal_of m)
      then (case s_files sinfo of
              FDict d \<Rightarrow>
                (case map_of d (the m) of
                   None \<Rightarrow> Inl (KeyError_modal (the m))
                 | Some xs \<Rightarrow>
                     Inr (sinfo\<lparr>s_files := FDict
                            (AList.update (the m) (sort_key (\<lambda>x. (filename x, fileext x)) xs) d)\<rparr>))
            | FList xs \<Rightarrow> Inl TypeError)
      else (case s_files sinfo of
              FList xs \<Rightarrow>
                Inr (sinfo\<lparr>s_files := FList (sort_key (\<lambda>x. (modal x, filename x, fileext x)) xs)\<rparr>)
            | FDict d \<Rightarrow>
                (if d = [] then Inr (sinfo\<lparr>s_files := FList []\<rparr>) else Inl AttributeError)))"

record cstate =
  processed :: "string list"
  c_session_list :: "SessionItem list"
  c_file_list :: "FileItem list"
  c_modal :: modalvar

text \<open>
  "construct session and file lists": the session object is found or created; the result
  is its position in \<open>session_list\<close> and the lists after the \<open>append\<close>s.
\<close>

definition lookup_session ::
  "string \<Rightarrow> string option \<Rightarrow> string option \<Rightarrow> cstate \<Rightarrow> error + (nat \<times> cstate)" where
  "lookup_session subj sess m c =
     (if task_id subj sess \<in> set (processed c)
      then (case find_session subj sess (c_session_list c) of
              None \<Rightarrow> Inl IndexError
            | Some k \<Rightarrow> Inr (k, c))
      else Inr (length (c_session_list c),
                c\<lparr>c_session_list := c_session_list c @
                     [\<lparr>s_subject = subj, s_session = sess,
                       s_files = (if truthy (modal_of m) then FDict [] else FList [])\<rparr>],
                  processed := processed c @ [task_id subj sess]\<rparr>))"

text \<open>One iteration of \<open>for sess_path, filenames in files.by_depth[self.max_depth].items()\<close>.\<close>

definition construct_entry ::
  "string \<Rightarrow> int \<Rightarrow> MaxDepthRef \<Rightarrow> cstate \<Rightarrow> string \<times> string list \<Rightarrow> error + cstate" where
  "construct_entry abs_path md ref c e =
     (case parse_meta md ref (c_modal c) (fst e) of
        Inl err \<Rightarrow> Inl err
      | Inr meta \<Rightarrow>
     (case lookup_session (fst meta) (fst (snd meta)) (snd (snd meta)) c of
        Inl err \<Rightarrow> Inl err
      | Inr (k, c1) \<Rightarrow>
     (case fold_err (add_file abs_path (fst e) meta) (c_session_list c1 ! k, c_file_list c1) (snd e) of
        Inl err \<Rightarrow> Inl err
      | Inr (sinfo, fl) \<Rightarrow>
     (case sort_session_files (snd (snd meta)) sinfo of
        Inl err \<Rightarrow> Inl err
      | Inr sinfo' \<Rightarrow>
          Inr (c1\<lparr>c_session_list := (c_session_list c1)[k := sinfo'],
                  c_file_list := fl,
                  c_modal := modal_of (snd (snd meta))\<rparr>)))))"

definition constructor ::
  "string \<Rightarrow> int \<Rightarrow> by_depth \<Rightarrow> MaxDepthRef \<Rightarrow> bool \<Rightarrow> error + (SessionItem list \<times> FileItem list)" where
  "constructor abs_path md files ref m =
     (case map_of files md of
        None \<Rightarrow> Inl (KeyError_depth md)
      | Some d \<Rightarrow>
          (case fold_err (construct_entry abs_path md ref)
                  \<lparr>processed = [], c_session_list = [], c_file_list = [], c_modal = MBool m\<rparr> d of
             Inl err \<Rightarrow> Inl err
           | Inr c \<Rightarrow>
               Inr (sort_key (\<lambda>x. (s_subject x, s_session x)) (c_session_list c),
                    sort_key (\<lambda>x. (subject x, session x, modal x, filename x, fileext x))
                      (c_file_list c))))"

section \<open>FilterEngine: \<open>BaseParser._filter\<close> and \<open>BaseParser._session_filter\<close>\<close>

text \<open>
  An argument of type \<open>Union[List[str], str, None]\<close>. The code tests it for truth (an empty
  string and an empty list count as absent) and wraps a single string into a list.
\<close>

datatype sel = Str string | StrList "string list"

fun sel_truthy :: "sel \<Rightarrow> bool" where
  "sel_truthy (Str s) = (s \<noteq> [])"
| "sel_truthy (StrList xs) = (xs \<noteq> [])"

fun sel_list :: "sel \<Rightarrow> string list" where
  "sel_list (Str s) = [s]"
| "sel_list (StrList xs) = xs"

record filter_args =
  f_subject :: "sel option"
  f_session :: "sel option"
  f_modal :: "sel option"
  f_annotation :: "sel option"
  f_regex :: "string option"
  f_regex_ignore :: "string option"
  f_ext :: "string option"

text \<open>\<open>if x: xs = [e for e in xs if P(x, e)]\<close> for the two kinds of argument.\<close>

definition when_sel :: "sel option \<Rightarrow> (string list \<Rightarrow> 'a \<Rightarrow> bool) \<Rightarrow> 'a list \<Rightarrow> 'a list" where
  "when_sel x P xs =
     (case x of None \<Rightarrow> xs
      | Some s \<Rightarrow> if sel_truthy s then filter (P (sel_list s)) xs else xs)"

definition when_str :: "string option \<Rightarrow> (string \<Rightarrow> 'a \<Rightarrow> bool) \<Rightarrow> 'a list \<Rightarrow> 'a list" where
  "when_str x P xs =
     (case x of None \<Rightarrow> xs
      | Some s \<Rightarrow> if s \<noteq> [] then filter (P s) xs else xs)"

text \<open>\<open>v in xs\<close> for an attribute that may be \<open>None\<close>, in a list of strings.\<close>

definition opt_in :: "string option \<Rightarrow> string list \<Rightarrow> bool" where
  "opt_in v xs = (case v of None \<Rightarrow> False | Some s \<Rightarrow> s \<in> set xs)"

text \<open>\<open>FileItem.has_ext\<close>.\<close>

definition has_ext :: "FileItem \<Rightarrow> string \<Rightarrow> bool" where
  "has_ext f ext =
     (strip_empty_str_in_list (split_on CHR ''.'' (fileext f)) =
      strip_empty_str_in_list (split_on CHR ''.'' ext))"

text \<open>
  \<open>FileItem.is_match\<close> calls Python's \<open>re\<close>, which is not part of the repository: the
  relation "the pattern matches at the start of the text" is the parameter \<open>rx\<close> of the
  filter functions (pattern first). Patterns are taken to compile.
\<close>

definition is_match :: "(string \<Rightarrow> string \<Rightarrow> bool) \<Rightarrow> FileItem \<Rightarrow> string \<Rightarrow> bool" where
  "is_match rx f regex = rx regex (filename f)"

text \<open>The file-list part of \<open>_filter\<close>, in the order of the source.\<close>

definition filter_file_list ::
  "(string \<Rightarrow> string \<Rightarrow> bool) \<Rightarrow> filter_args \<Rightarrow> FileItem list \<Rightarrow> FileItem list" where
  "filter_file_list rx a fl =
     (let l1 = when_sel (f_subject a) (\<lambda>xs f. subject f \<in> set xs) fl;
          l2 = when_sel (f_session a) (\<lambda>xs f. opt_in (session f) xs) l1;
          l3 = when_sel (f_modal a) (\<lambda>xs f. opt_in (modal f) xs) l2;
          l4 = when_sel (f_annotation a) (\<lambda>xs f. opt_in (annotation f) xs) l3;
          l5 = when_str (f_ext a) (\<lambda>e f. has_ext f e) l4;
          l6 = when_str (f_regex a) (\<lambda>r f. is_match rx f r) l5
      in when_str (f_regex_ignore a) (\<lambda>r f. \<not> is_match rx f r) l6)"

text \<open>
  The nested part of \<open>_session_filter\<close>: what the chain of assignments to \<open>sess.files\<close> does
  to one list of files, in the order of the source.
\<close>

definition filter_nested ::
  "(string \<Rightarrow> string \<Rightarrow> bool) \<Rightarrow> filter_args \<Rightarrow> FileItem list \<Rightarrow> FileItem list" where
  "filter_nested rx a fl =
     (let l1 = when_sel (f_modal a) (\<lambda>xs f. opt_in (modal f) xs) fl;
          l2 = when_sel (f_annotation a) (\<lambda>xs f. opt_in (annotation f) xs) l1;
          l3 = when_str (f_regex a) (\<lambda>r f. is_match rx f r) l2;
          l4 = when_str (f_regex_ignore a) (\<lambda>r f. \<not> is_match rx f r) l3
      in when_str (f_ext a) (\<lambda>e f. has_ext f e) l4)"

text \<open>
  The body of \<open>for sess in session_list\<close> on the object \<open>sess\<close>: each list of a dict, or the
  one list, is filtered, and \<open>{k: v for k, v in sess.files.items() if len(v)}\<close> drops the
  empty buckets of a dict.
\<close>

definition session_filter_body ::
  "(string \<Rightarrow> string \<Rightarrow> bool) \<Rightarrow> filter_args \<Rightarrow> SessionItem \<Rightarrow> SessionItem" where
  "session_filter_body rx a sess =
     (case s_files sess of
        FList xs \<Rightarrow> sess\<lparr>s_files := FList (filter_nested rx a xs)\<rparr>
      | FDict d \<Rightarrow>
          sess\<lparr>s_files := FDict (filter (\<lambda>e. snd e \<noteq> [])
                                    (map (\<lambda>e. (fst e, filter_nested rx a (snd e))) d))\<rparr>)"

text \<open>
  The objects that are assigned to (\<open>sess.files = ...\<close>) are the \<open>SessionItem\<close>s, so they live
  in a store: an address is a position in it, and a list of sessions is a list of
  addresses. \<open>copy(s)\<close> allocates a new object with the fields of \<open>s\<close>. Lists, dicts and
  \<open>FileItem\<close>s are only read and rebuilt by comprehensions, never written, and are values.
\<close>

type_synonym addr = nat
type_synonym store = "SessionItem list"

text \<open>\<open>[copy(s) for s in session_list]\<close>\<close>

fun copy_sessions :: "store \<Rightarrow> addr list \<Rightarrow> store \<times> addr list" where
  "copy_sessions st [] = (st, [])"
| "copy_sessions st (a # as) =
     (case copy_sessions (st @ [st ! a]) as of (st', bs) \<Rightarrow> (st', length st # bs))"

text \<open>The loop over the copies: each one is overwritten with the result of the body.\<close>

fun session_filter_loop ::
  "(string \<Rightarrow> string \<Rightarrow> bool) \<Rightarrow> filter_args \<Rightarrow> store \<Rightarrow> addr list \<Rightarrow> store" where
  "session_filter_loop rx a st [] = st"
| "session_filter_loop rx a st (b # bs) =
     session_filter_loop rx a (st[b := session_filter_body rx a (st ! b)]) bs"

definition session_filter ::
  "(string \<Rightarrow> string \<Rightarrow> bool) \<Rightarrow> filter_args \<Rightarrow> store \<Rightarrow> addr list \<Rightarrow> store \<times> addr list" where
  "session_filter rx a st session_list =
     (case copy_sessions st session_list of
        (st1, bs) \<Rightarrow> (session_filter_loop rx a st1 bs, bs))"

text \<open>\<open>_filter\<close>: the filtered file list, the filtered session list and the store.\<close>

definition filter_lists ::
  "(string \<Rightarrow> string \<Rightarrow> bool) \<Rightarrow> filter_args \<Rightarrow> store \<Rightarrow> FileItem list \<Rightarrow> addr list \<Rightarrow>
     FileItem list \<times> addr list \<times> store" where
  "filter_lists rx a st file_list session_list =
     (let fl = filter_file_list rx a file_list;
          s1 = when_sel (f_subject a) (\<lambda>xs b. s_subject (st ! b) \<in> set xs) session_list;
          s2 = when_sel (f_session a) (\<lambda>xs b. opt_in (s_session (st ! b)) xs) s1
      in (case session_filter rx a st s2 of (st', sl) \<Rightarrow> (fl, sl, st')))"

section \<open>Dataset facades: \<open>RawDataset\<close> and \<open>StepDataset\<close>\<close>

text \<open>
  \<open>subjects\<close>, \<open>sessions\<close> and \<open>modals\<close> are only annotated in the class body; they exist as
  attributes once \<open>_validate\<close> or \<open>_inherits\<close> has assigned them, all three together. \<open>ids\<close>
  is \<open>None\<close> before that, and reading one of them then raises \<open>AttributeError\<close>.
\<close>

record Ids =
  subjects :: "string list option"
  sessions :: "string list option"
  modals :: "string list option"

record Inherits =
  i_subjects :: "string list option"
  i_sessions :: "string list option"
  i_modal :: "string list option"
  i_file_list :: "FileItem list"
  i_session_list :: "addr list"

record Dataset =
  path :: string
  scan :: parsed
  ids :: "Ids option"
  file_list :: "FileItem list"
  session_list :: "addr list"

text \<open>
  \<open>_validate\<close>: the tuple \<open>(subjects, sessions, modals)\<close> returned by \<open>_validator\<close> is unpacked
  into \<open>self.sessions, self.subjects, self.modals\<close>, in this order.
\<close>

definition validate :: "MaxDepthRef \<Rightarrow> bool \<Rightarrow> parsed \<Rightarrow> error + Ids" where
  "validate ref m p =
     (case validator (dirs_by_depth p) (files_by_depth p) (max_depth p) ref m False of
        Inl e \<Rightarrow> Inl e
      | Inr (ws, r_subjects, r_sessions, r_modals) \<Rightarrow>
          Inr \<lparr>subjects = r_sessions, sessions = Some r_subjects, modals = r_modals\<rparr>)"

text \<open>
  \<open>__init__\<close> of both facades, with the reference depths and the modality flag of the class
  as parameters, on the file system \<open>fs\<close> found under \<open>path\<close> at the time of the call:
  \<open>BaseParser.__init__\<close> walks the tree in every case, then \<open>_validate\<close> runs when asked for,
  then \<open>_inherits\<close> or \<open>_construct\<close>. \<open>_construct\<close> assigns the pair returned by \<open>_constructor\<close>
  to \<open>self.session_list, self.file_list\<close>; the new session objects are allocated at the end
  of the store.
\<close>

definition dataset_init ::
  "MaxDepthRef \<Rightarrow> bool \<Rightarrow> string \<Rightarrow> bool \<Rightarrow> Inherits option \<Rightarrow> fsnode option \<Rightarrow> store \<Rightarrow>
     (error + Dataset) \<times> store" where
  "dataset_init ref m pth vld inherits fs st =
     (let p = parse_all pth False fs in
      (case (if vld then map_sum id Some (validate ref m p) else Inr None) of
         Inl e \<Rightarrow> (Inl e, st)
       | Inr i \<Rightarrow>
           (case inherits of
              Some h \<Rightarrow>
                (Inr \<lparr>path = pth, scan = p,
                      ids = Some \<lparr>subjects = i_subjects h, sessions = i_sessions h,
                                  modals = i_modal h\<rparr>,
                      file_list = i_file_list h, session_list = i_session_list h\<rparr>, st)
            | None \<Rightarrow>
                (case constructor pth (max_depth p) (files_by_depth p) ref m of
                   Inl e \<Rightarrow> (Inl e, st)
                 | Inr (sl, fl) \<Rightarrow>
                     (Inr \<lparr>path = pth, scan = p, ids = i, file_list = fl,
                           session_list = [length st ..< length st + length sl]\<rparr>,
                      st @ sl)))))"

text \<open>
  \<open>filter\<close> of both facades: \<open>_filter\<close> runs first, then the bundle is built from
  \<open>self.subjects\<close>, \<open>self.sessions\<close> and \<open>self.modals\<close>, then the class is instantiated again
  with \<open>validate=False\<close> and the bundle, on the file system found at that time.
\<close>

definition dataset_filter ::
  "MaxDepthRef \<Rightarrow> bool \<Rightarrow> (string \<Rightarrow> string \<Rightarrow> bool) \<Rightarrow> Dataset \<Rightarrow> filter_args \<Rightarrow>
     fsnode option \<Rightarrow> store \<Rightarrow> (error + Dataset) \<times> store" where
  "dataset_filter ref m rx d a fs st =
     (case filter_lists rx a st (file_list d) (session_list d) of
        (fl, sl, st') \<Rightarrow>
          (case ids d of
             None \<Rightarrow> (Inl AttributeError, st')
           | Some i \<Rightarrow>
               dataset_init ref m (path d) False
                 (Some \<lparr>i_subjects = subjects i, i_sessions = sessions i, i_modal = modals i,
                        i_file_list = fl, i_session_list = sl\<rparr>) fs st'))"

definition raw_ref :: MaxDepthRef where
  "raw_ref = \<lparr>single_session = 2, multi_session = 3\<rparr>"

definition step_ref :: MaxDepthRef where
  "step_ref = \<lparr>single_session = 1, multi_session = 2\<rparr>"

definition RawDataset ::
  "string \<Rightarrow> bool \<Rightarrow> Inherits option \<Rightarrow> fsnode option \<Rightarrow> store \<Rightarrow> (error + Dataset) \<times> store" where
  "RawDataset = dataset_init raw_ref True"

definition StepDataset ::
  "string \<Rightarrow> bool \<Rightarrow> Inherits option \<Rightarrow> fsnode option \<Rightarrow> store \<Rightarrow> (error + Dataset) \<times> store" where
  "StepDataset = dataset_init step_ref False"

definition RawDataset_filter ::
  "(string \<Rightarrow> string \<Rightarrow> bool) \<Rightarrow> Dataset \<Rightarrow> filter_args \<Rightarrow> fsnode option \<Rightarrow> store \<Rightarrow>
     (error + Dataset) \<times> store" where
  "RawDataset_filter = dataset_filter raw_ref True"

definition StepDataset_filter ::
  "(string \<Rightarrow> string \<Rightarrow> bool) \<Rightarrow> Dataset \<Rightarrow> filter_args \<Rightarrow> fsnode option \<Rightarrow> store \<Rightarrow>
     (error + Dataset) \<times> store" where
  "StepDataset_filter = dataset_filter step_ref False"

text \<open>The absent arguments of \<open>filter()\<close>.\<close>

definition no_args :: filter_args where
  "no_args = \<lparr>f_subject = None, f_session = None, f_modal = None, f_annotation = None,
              f_regex = None, f_regex_ignore = None, f_ext = None\<rparr>"

text \<open>The session objects a facade refers to, read from the store.\<close>

definition sessions_of :: "store \<Rightarrow> Dataset \<Rightarrow> SessionItem list" where
  "sessions_of st d = map (\<lambda>b. st ! b) (session_list d)"

text \<open>All files nested in a session, and in a list of sessions.\<close>

definition files_in :: "files \<Rightarrow> FileItem list" where
  "files_in fs = (case fs of FList xs \<Rightarrow> xs | FDict d \<Rightarrow> concat (map snd d))"

definition nested_files :: "SessionItem list \<Rightarrow> FileItem list" where
  "nested_files ss = concat (map (\<lambda>s. files_in (s_files s)) ss)"

section \<open>The two indexes, and what filtering keeps\<close>

text \<open>The name that ends up in \<open>FileItem.annotation\<close>: \<open>self._abs_path_list[-1]\<close>.\<close>

definition root_name :: "string \<Rightarrow> string" where
  "root_name ap = last (abs_path_list ap)"

text \<open>No modality bucket of a session is empty.\<close>

definition nonempty_buckets :: "files \<Rightarrow> bool" where
  "nonempty_buckets fs = (case fs of FList xs \<Rightarrow> True | FDict d \<Rightarrow> list_all (\<lambda>e. snd e \<noteq> []) d)"

text \<open>
  A session whose nested files all carry the session's own subject and session, and which
  has no empty bucket; and a session list and a flat file list that hold the same files,
  counted with multiplicity.
\<close>

definition session_ok :: "SessionItem \<Rightarrow> bool" where
  "session_ok s =
     (list_all (\<lambda>f. subject f = s_subject s \<and> session f = s_session s) (files_in (s_files s)) \<and>
      nonempty_buckets (s_files s))"

definition indexes_agree :: "SessionItem list \<Rightarrow> FileItem list \<Rightarrow> bool" where
  "indexes_agree sl fl = (mset fl = mset (nested_files sl) \<and> list_all session_ok sl)"

text \<open>
  The conditions under which the filters keep a record: an argument that is absent or
  not true keeps everything. \<open>keep_session\<close> is what \<open>_filter\<close> tests on a \<open>SessionItem\<close>,
  \<open>keep_nested\<close> what \<open>_session_filter\<close> tests on a nested file, and \<open>keep_file\<close> what
  \<open>_filter\<close> tests on a file of the flat list.
\<close>

definition sel_ok :: "sel option \<Rightarrow> (string list \<Rightarrow> bool) \<Rightarrow> bool" where
  "sel_ok x P = (case x of None \<Rightarrow> True | Some s \<Rightarrow> if sel_truthy s then P (sel_list s) else True)"

definition str_ok :: "string option \<Rightarrow> (string \<Rightarrow> bool) \<Rightarrow> bool" where
  "str_ok x P = (case x of None \<Rightarrow> True | Some s \<Rightarrow> if s \<noteq> [] then P s else True)"

definition keep_nested :: "(string \<Rightarrow> string \<Rightarrow> bool) \<Rightarrow> filter_args \<Rightarrow> FileItem \<Rightarrow> bool" where
  "keep_nested rx a f =
     (sel_ok (f_modal a) (opt_in (modal f)) \<and> sel_ok (f_annotation a) (opt_in (annotation f)) \<and>
      str_ok (f_regex a) (is_match rx f) \<and> str_ok (f_regex_ignore a) (\<lambda>r. \<not> is_match rx f r) \<and>
      str_ok (f_ext a) (has_ext f))"

definition keep_session :: "filter_args \<Rightarrow> string \<Rightarrow> string option \<Rightarrow> bool" where
  "keep_session a subj sess =
     (sel_ok (f_subject a) (\<lambda>xs. subj \<in> set xs) \<and> sel_ok (f_session a) (opt_in sess))"

definition keep_file :: "(string \<Rightarrow> string \<Rightarrow> bool) \<Rightarrow> filter_args \<Rightarrow> FileItem \<Rightarrow> bool" where
  "keep_file rx a f = (keep_session a (subject f) (session f) \<and> keep_nested rx a f)"

text \<open>
  A facade in a store: its session addresses are allocated and its two indexes agree.
\<close>

definition consistent :: "store \<Rightarrow> Dataset \<Rightarrow> bool" where
  "consistent st d =
     (list_all (\<lambda>b. b < length st) (session_list d) \<and>
      indexes_agree (sessions_of st d) (file_list d))"

text \<open>
  A key of an inner dict of \<open>by_depth\<close> is a relative path: it does not start with the
  separator. In a dict built from a scan the keys are distinct, and so are the file
  names under each key.
\<close>

definition rel_key :: "string \<Rightarrow> bool" where
  "rel_key k = (k = [] \<or> hd k \<noteq> sep)"

definition dict_ok :: "(string \<times> string list) list \<Rightarrow> bool" where
  "dict_ok d = (distinct (map fst d) \<and> list_all (\<lambda>e. distinct (snd e) \<and> rel_key (fst e)) d)"

text \<open>A directory never lists the same file name twice.\<close>

fun wf_node :: "fsnode \<Rightarrow> bool" and wf_nodes :: "(string \<times> fsnode) list \<Rightarrow> bool" where
  "wf_node (Dir ds fs) = (distinct fs \<and> wf_nodes ds)"
| "wf_nodes [] = True"
| "wf_nodes (d # ds) = (wf_node (snd d) \<and> wf_nodes ds)"

definition wf_fs :: "fsnode option \<Rightarrow> bool" where
  "wf_fs fs = (case fs of None \<Rightarrow> True | Some t \<Rightarrow> wf_node t)"

text \<open>
  The facades a program can hold: made by the constructor of either class from a scan
  (\<open>inherits=None\<close>), or returned by \<open>filter\<close> on such a facade; the store may have grown
  since by other allocations.
\<close>

inductive reachable :: "store \<Rightarrow> Dataset \<Rightarrow> bool" where
  constructed: "wf_fs fs \<Longrightarrow> dataset_init ref m pth vld None fs st = (Inr d, st') \<Longrightarrow> reachable st' d"
| filtered: "reachable st d \<Longrightarrow> dataset_filter ref m rx d a fs st = (Inr d', st') \<Longrightarrow> reachable st' d'"
| allocated: "reachable st d \<Longrightarrow> reachable (st @ ext) d"

section \<open>Example trees\<close>

text \<open>
  \<open>data/sub-01/ses-01/anat/sub-01_ses-01_T1w.nii.gz\<close> and
  \<open>data/sub-02/ses-01/anat/sub-02_ses-01_T1w.nii.gz\<close>.
\<close>

definition tree_two_sessions :: fsnode where
  "tree_two_sessions =
     Dir [(''sub-01'', Dir [(''ses-01'', Dir [(''anat'', Dir [] [''sub-01_ses-01_T1w.nii.gz''])] [])] []),
          (''sub-02'', Dir [(''ses-01'', Dir [(''anat'', Dir [] [''sub-02_ses-01_T1w.nii.gz''])] [])] [])] []"

text \<open>A single-session tree whose subject directories are \<open>sub-01\<close>, \<open>sub-02\<close> and \<open>junk\<close>.\<close>

definition tree_junk :: fsnode where
  "tree_junk =
     Dir [(''sub-01'', Dir [(''anat'', Dir [] [''sub-01_T1w.nii.gz''])] []),
          (''sub-02'', Dir [(''anat'', Dir [] [''sub-02_T1w.nii.gz''])] []),
          (''junk'', Dir [(''anat'', Dir [] [''sub-03_T1w.nii.gz''])] [])] []"

text \<open>One empty subject directory: the deepest leaf directory is at depth 1.\<close>

definition tree_empty_subject :: fsnode where
  "tree_empty_subject = Dir [(''sub-01'', Dir [] [])] []"

text \<open>
  A match relation for the examples: the pattern is taken literally and has to be a prefix
  of the text, which is what \<open>re.match\<close> does for a pattern without metacharacters.
\<close>

definition literal_match :: "string \<Rightarrow> string \<Rightarrow> bool" where
  "literal_match p s = (take (length p) s = p)"

text \<open>\<open>RawDataset('/data')\<close> on the single-session tree, in an empty store.\<close>

definition junk_init :: "(error + Dataset) \<times> store" where
  "junk_init = RawDataset ''/data'' True None (Some tree_junk) []"

definition junk_dataset :: Dataset where
  "junk_dataset = projr (fst junk_init)"

definition junk_store :: store where
  "junk_store = snd junk_init"

text \<open>A single-session tree whose only file has no dot in its name.\<close>

definition tree_no_dot :: fsnode where
  "tree_no_dot = Dir [(''sub-01'', Dir [(''anat'', Dir [] [''README''])] [])] []"

text \<open>\<open>filter(subject='sub-01')\<close> on that facade.\<close>

definition junk_filtered :: "(error + Dataset) \<times> store" where
  "junk_filtered =
     dataset_filter raw_ref True literal_match junk_dataset
       (no_args\<lparr>f_subject := Some (Str ''sub-01'')\<rparr>) (Some tree_junk) junk_store"

text \<open>\<open>RawDataset('/data', validate=False)\<close> on the two-session tree, in an empty store.\<close>

definition two_sessions_init :: "(error + Dataset) \<times> store" where
  "two_sessions_init = RawDataset ''/data'' False None (Some tree_two_sessions) []"

definition two_sessions_dataset :: Dataset where
  "two_sessions_dataset = projr (fst two_sessions_init)"

definition two_sessions_store :: store where
  "two_sessions_store = snd two_sessions_init"

section \<open>The end-to-end example\<close>

text \<open>
  Claim C1. For the two-file tree, constructing a \<open>RawDataset\<close> with \<open>validate=True\<close> should
  give max depth 3, the subjects, sessions and modalities of the tree, and a working
  \<open>filter(subject="sub-01")\<close>. The walk does find max depth 3, but \<open>_validator\<close> then reads
  the session names from \<open>dirs.by_depth[ref.multi_session]\<close>, that is depth 3, where only
  leaf directories are: the lookup raises \<open>KeyError\<close> and no facade is built. Built with
  \<open>validate=False\<close> the facade exists, and \<open>filter\<close> on it raises \<open>AttributeError\<close>, since
  \<open>self.subjects\<close> was never assigned.
\<close>

theorem two_session_tree_validation_fails:
  "max_depth (parse_all ''/data'' False (Some tree_two_sessions)) = 3 \<and>
   RawDataset ''/data'' True None (Some tree_two_sessions) [] = (Inl (KeyError_depth 3), []) \<and>
   (case RawDataset ''/data'' False None (Some tree_two_sessions) [] of
      (Inr d, st) \<Rightarrow>
        fst (RawDataset_filter rx d (no_args\<lparr>f_subject := Some (Str ''sub-01'')\<rparr>)
               (Some tree_two_sessions) st) = Inl AttributeError
    | (Inl e, st) \<Rightarrow> False)"
  by code_simp

section \<open>Naming exclusion\<close>

text \<open>
  Claim C3. For the subject directories \<open>sub-01\<close>, \<open>sub-02\<close> and \<open>junk\<close> the validator should
  warn about \<open>junk\<close> only and return the subjects \<open>sub-01\<close> and \<open>sub-02\<close>. The loop warns when
  \<open>is_subjects[i]\<close> holds, so about the two names that do match, and it narrows the list
  again in every iteration with the flags of the first list: the subjects returned are
  the empty list. The file under \<open>junk\<close> is in the flat file list of the facade, as the
  claim says.
\<close>

theorem junk_subject_validation:
  "(let p = parse_all ''/data'' False (Some tree_junk) in
      map_of (dirs_by_depth p) 0 = Some [([], [''junk'', ''sub-01'', ''sub-02''])] \<and>
      validator (dirs_by_depth p) (files_by_depth p) (max_depth p) raw_ref True False =
        Inr ([SubjectExcluded ''sub-01'', SubjectExcluded ''sub-02''], [], None, Some [''anat''])) \<and>
   map subject (file_list junk_dataset) = [''junk'', ''sub-01'', ''sub-02'']"
  by code_simp

section \<open>Depth errors\<close>

text \<open>
  Claim C6. With a max depth that is neither reference depth, validator and constructor
  should both raise the structural error. The constructor first looks up
  \<open>files.by_depth[self.max_depth]\<close>; for a tree with no file at max depth that lookup
  raises \<open>KeyError\<close> before the depth is compared.
\<close>

theorem empty_subject_constructor_keyerror:
  "(let p = parse_all ''/data'' False (Some tree_empty_subject) in
      max_depth p = 1 \<and> max_depth p \<notin> set (ref_list raw_ref) \<and>
      constructor ''/data'' (max_depth p) (files_by_depth p) raw_ref True = Inl (KeyError_depth 1) \<and>
      RawDataset ''/data'' False None (Some tree_empty_subject) [] = (Inl (KeyError_depth 1), []))"
  by code_simp

section \<open>Extension splitting\<close>

lemma split_name_dot:
  assumes "CHR ''.'' \<in> set f"
  shows "\<exists>stem ext. split_name f = Some (stem, ext) \<and> f = stem @ CHR ''.'' # ext \<and>
           CHR ''.'' \<notin> set stem"
proof -
  let ?P = "\<lambda>c. c \<noteq> CHR ''.''"
  from assms have ne: "dropWhile ?P f \<noteq> []" by simp
  then have hd: "hd (dropWhile ?P f) = CHR ''.''" using hd_dropWhile[of ?P f] by simp
  have "f = takeWhile ?P f @ dropWhile ?P f" by simp
  also have "dropWhile ?P f = CHR ''.'' # tl (dropWhile ?P f)" using ne hd by (metis list.collapse)
  finally have "f = takeWhile ?P f @ CHR ''.'' # tl (dropWhile ?P f)" .
  moreover have "CHR ''.'' \<notin> set (takeWhile ?P f)" using set_takeWhileD by fastforce
  ultimately show ?thesis using assms by (simp add: split_name_def)
qed

lemma make_file_split:
  "make_file ap sp meta f = Inr r \<Longrightarrow>
     f = filename r @ CHR ''.'' # fileext r \<and> CHR ''.'' \<notin> set (filename r)"
  using split_name_dot[of f]
  by (auto simp: make_file_def split_name_def split: option.splits list.splits if_splits)



section \<open>Filtering leaves the source untouched\<close>

lemma copy_sessions_shape:
  "copy_sessions st as = (st', bs) \<Longrightarrow>
     (\<exists>ext. st' = st @ ext \<and> length ext = length as) \<and> bs = [length st ..< length st + length as]"
proof (induction as arbitrary: st st' bs)
  case Nil
  then show ?case by simp
next
  case (Cons a as)
  obtain st1 bs1 where r: "copy_sessions (st @ [st ! a]) as = (st1, bs1)" by force
  from Cons.IH[OF r] obtain ext where
    e: "st1 = (st @ [st ! a]) @ ext" "length ext = length as"
    and b: "bs1 = [length (st @ [st ! a]) ..< length (st @ [st ! a]) + length as]" by blast
  from Cons.prems r have "st' = st1" "bs = length st # bs1" by auto
  have k: "[length st ..< Suc (length st + length as)] =
      length st # [Suc (length st) ..< Suc (length st + length as)]"
    by (rule upt_conv_Cons) simp
  from \<open>st' = st1\<close> \<open>bs = length st # bs1\<close> e b show ?case by (simp del: upt_Suc add: k)
qed

lemma copy_sessions_contents:
  "copy_sessions st as = (st', bs) \<Longrightarrow> \<forall>a\<in>set as. a < length st \<Longrightarrow>
     st' = st @ map (\<lambda>a. st ! a) as"
proof (induction as arbitrary: st st' bs)
  case Nil
  then show ?case by simp
next
  case (Cons a as)
  obtain st1 bs1 where r: "copy_sessions (st @ [st ! a]) as = (st1, bs1)" by force
  have "\<forall>x\<in>set as. x < length (st @ [st ! a])" using Cons.prems(2) by auto
  from Cons.IH[OF r this] have "st1 = (st @ [st ! a]) @ map (\<lambda>x. (st @ [st ! a]) ! x) as" .
  moreover have "map (\<lambda>x. (st @ [st ! a]) ! x) as = map (\<lambda>x. st ! x) as"
    using Cons.prems(2) by (auto simp: nth_append)
  moreover from Cons.prems r have "st' = st1" by auto
  ultimately show ?case by simp
qed

lemma session_filter_loop_length:
  "length (session_filter_loop rx a st bs) = length st"
  by (induction bs arbitrary: st) auto

lemma session_filter_loop_frame:
  "\<forall>b\<in>set bs. n \<le> b \<Longrightarrow> take n (session_filter_loop rx a st bs) = take n st"
  by (induction bs arbitrary: st) auto

lemma session_filter_loop_nth:
  "c \<notin> set bs \<Longrightarrow> session_filter_loop rx a st bs ! c = st ! c"
  by (induction bs arbitrary: st) auto

lemma session_filter_loop_contents:
  "distinct bs \<Longrightarrow> \<forall>b\<in>set bs. b < length st \<Longrightarrow>
     map (\<lambda>b. session_filter_loop rx a st bs ! b) bs = map (\<lambda>b. session_filter_body rx a (st ! b)) bs"
proof (induction bs arbitrary: st)
  case Nil
  then show ?case by simp
next
  case (Cons b bs)
  let ?st = "st[b := session_filter_body rx a (st ! b)]"
  have 1: "session_filter_loop rx a ?st bs ! b = session_filter_body rx a (st ! b)"
    using Cons.prems by (simp add: session_filter_loop_nth)
  have "map (\<lambda>b. session_filter_loop rx a ?st bs ! b) bs = map (\<lambda>b. session_filter_body rx a (?st ! b)) bs"
    using Cons.prems by (intro Cons.IH) auto
  also have "\<dots> = map (\<lambda>b. session_filter_body rx a (st ! b)) bs"
  proof (rule map_cong[OF refl])
    fix x assume "x \<in> set bs"
    with Cons.prems(1) have "x \<noteq> b" by auto
    then show "session_filter_body rx a (?st ! x) = session_filter_body rx a (st ! x)" by simp
  qed
  finally show ?case using 1 by simp
qed

lemma session_filter_frame:
  "session_filter rx a st sl = (st', bs) \<Longrightarrow>
     take (length st) st' = st \<and> bs = [length st ..< length st + length sl] \<and>
     length st' = length st + length sl"
proof -
  assume h: "session_filter rx a st sl = (st', bs)"
  obtain st1 bs1 where c: "copy_sessions st sl = (st1, bs1)" by force
  from copy_sessions_shape[OF c] obtain ext where
    e: "st1 = st @ ext" "length ext = length sl" and b: "bs1 = [length st ..< length st + length sl]"
    by blast
  from h c have r: "st' = session_filter_loop rx a st1 bs1" "bs = bs1"
    by (auto simp: session_filter_def)
  have "take (length st) st' = take (length st) st1"
    unfolding r using b by (intro session_filter_loop_frame) auto
  with e b r show ?thesis by (simp add: session_filter_loop_length)
qed

lemma session_filter_contents:
  assumes "session_filter rx a st sl = (st', bs)" "\<forall>b\<in>set sl. b < length st"
  shows "map (\<lambda>b. st' ! b) bs = map (\<lambda>b. session_filter_body rx a (st ! b)) sl"
proof -
  obtain st1 bs1 where c: "copy_sessions st sl = (st1, bs1)" by force
  from copy_sessions_shape[OF c] have b: "bs1 = [length st ..< length st + length sl]" by blast
  from copy_sessions_contents[OF c assms(2)] have s1: "st1 = st @ map (\<lambda>a. st ! a) sl" .
  from assms(1) c have r: "st' = session_filter_loop rx a st1 bs1" "bs = bs1"
    by (auto simp: session_filter_def)
  have "map (\<lambda>b. st' ! b) bs = map (\<lambda>b. session_filter_body rx a (st1 ! b)) bs1"
    unfolding r using b s1 by (intro session_filter_loop_contents) auto
  also have "\<dots> = map (\<lambda>b. session_filter_body rx a (st ! b)) sl"
    unfolding b s1 by (rule nth_equalityI) (auto simp: nth_append)
  finally show ?thesis .
qed

lemma dataset_init_inherits:
  "dataset_init ref m pth False (Some h) fs st =
     (Inr \<lparr>path = pth, scan = parse_all pth False fs,
           ids = Some \<lparr>subjects = i_subjects h, sessions = i_sessions h, modals = i_modal h\<rparr>,
           file_list = i_file_list h, session_list = i_session_list h\<rparr>, st)"
  by (simp add: dataset_init_def Let_def)

lemma dataset_filter_store:
  "snd (dataset_filter ref m rx d a fs st) = snd (snd (filter_lists rx a st (file_list d) (session_list d)))"
  by (auto simp: dataset_filter_def dataset_init_inherits split: prod.splits option.splits)

lemma filter_lists_frame:
  "take (length st) (snd (snd (filter_lists rx a st fl sl))) = st"
  by (auto simp: filter_lists_def Let_def split: prod.splits dest: session_filter_frame)

text \<open>
  Claim C5. \<open>filter\<close> leaves the source facade as it was. The method assigns nothing to
  \<open>self\<close>, so the facade \<open>d\<close> (its \<open>file_list\<close> and its list of session addresses) is the same
  value after the call; files, lists and dicts are never written. What the call writes
  are \<open>files\<close> attributes of session objects: every object that was in the store before the
  call is unchanged afterwards (the writes go to the fresh copies), so the sessions of
  \<open>d\<close>, with their nested file collections, read the same before and after. This holds
  for every combination of arguments, and also when the call ends in an error.
\<close>

theorem filter_frame:
  "\<forall>b\<in>set (session_list d). b < length st \<Longrightarrow>
     take (length st) (snd (dataset_filter ref m rx d a fs st)) = st \<and>
     sessions_of (snd (dataset_filter ref m rx d a fs st)) d = sessions_of st d"
proof -
  assume wf: "\<forall>b\<in>set (session_list d). b < length st"
  let ?st' = "snd (dataset_filter ref m rx d a fs st)"
  have t: "take (length st) ?st' = st" by (simp add: dataset_filter_store filter_lists_frame)
  have "\<And>b. b < length st \<Longrightarrow> ?st' ! b = st ! b"
    by (metis t nth_take)
  with wf have "sessions_of ?st' d = sessions_of st d" by (simp add: sessions_of_def)
  with t show ?thesis by simp
qed

theorem filter_frame_witness:
  "list_all (\<lambda>b. b < length junk_store) (session_list junk_dataset) \<and>
   session_list junk_dataset = [0, 1, 2] \<and>
   take (length junk_store)
     (snd (dataset_filter raw_ref True literal_match junk_dataset
             (no_args\<lparr>f_subject := Some (Str ''sub-01''), f_ext := Some ''nii.gz''\<rparr>)
             (Some tree_junk) junk_store)) = junk_store \<and>
   sessions_of
     (snd (dataset_filter raw_ref True literal_match junk_dataset
             (no_args\<lparr>f_subject := Some (Str ''sub-01''), f_ext := Some ''nii.gz''\<rparr>)
             (Some tree_junk) junk_store)) junk_dataset = sessions_of junk_store junk_dataset"
proof -
  have h: "\<forall>b\<in>set (session_list junk_dataset). b < length junk_store" by code_simp
  have l: "session_list junk_dataset = [0, 1, 2]" by code_simp
  show ?thesis
    using h l filter_frame[OF h, of raw_ref True literal_match
        "no_args\<lparr>f_subject := Some (Str ''sub-01''), f_ext := Some ''nii.gz''\<rparr>" "Some tree_junk"]
    by (simp add: list_all_iff)
qed

section \<open>Filtering and the file system\<close>

text \<open>
  Claim C4 says that \<open>filter\<close> does no disk I/O. It does: the new facade is made by the
  class constructor, and \<open>BaseParser.__init__\<close> calls \<open>parse\<close> in every case, so the tree
  under \<open>self.path\<close> is walked again and the new facade's \<open>max_depth\<close> and depth-grouped
  trees are those of the file system at the time of the call. Here the same facade is
  filtered once with the tree still there and once with the root gone.
\<close>

theorem filter_walks_the_tree_again:
  "map_sum id (\<lambda>d'. max_depth (scan d'))
     (fst (RawDataset_filter literal_match junk_dataset no_args (Some tree_junk) junk_store)) = Inr 2 \<and>
   map_sum id (\<lambda>d'. max_depth (scan d'))
     (fst (RawDataset_filter literal_match junk_dataset no_args None junk_store)) = Inr 0"
  by code_simp

text \<open>
  Claim C4, amended. \<open>filter\<close> walks the tree again, but what it returns apart from the scan
  results (the path, the identifier lists, the file list, the session list) and the
  store with the session objects do not depend on the file system at the time of the
  call: they come from the source facade, the store and the arguments alone.
\<close>

theorem filter_lists_independent_of_file_system:
  "map_sum id (\<lambda>d'. (path d', ids d', file_list d', session_list d'))
     (fst (dataset_filter ref m rx d a fs1 st)) =
   map_sum id (\<lambda>d'. (path d', ids d', file_list d', session_list d'))
     (fst (dataset_filter ref m rx d a fs2 st)) \<and>
   snd (dataset_filter ref m rx d a fs1 st) = snd (dataset_filter ref m rx d a fs2 st)"
  by (auto simp: dataset_filter_def dataset_init_inherits split: prod.splits option.splits)

section \<open>Loops that may raise\<close>

lemma fold_err_fails:
  "x \<in> set xs \<Longrightarrow> (\<And>s. \<exists>e. f s x = Inl e) \<Longrightarrow> \<exists>e. fold_err f s xs = Inl e"
proof (induction xs arbitrary: s)
  case Nil
  then show ?case by simp
next
  case (Cons y ys)
  show ?case
  proof (cases "f s y")
    case (Inl e)
    then show ?thesis by simp
  next
    case (Inr s')
    show ?thesis
    proof (cases "x = y")
      case True
      with Cons.prems(2)[of s] Inr show ?thesis by auto
    next
      case False
      with Cons.prems have "x \<in> set ys" by simp
      from Cons.IH[OF this Cons.prems(2)] Inr show ?thesis by simp
    qed
  qed
qed

lemma fold_err_invariant:
  "fold_err f s xs = Inr s' \<Longrightarrow> I s \<Longrightarrow>
     (\<And>s x s'. I s \<Longrightarrow> x \<in> set xs \<Longrightarrow> f s x = Inr s' \<Longrightarrow> I s') \<Longrightarrow> I s'"
proof (induction xs arbitrary: s)
  case Nil
  then show ?case by simp
next
  case (Cons y ys)
  from Cons.prems(1) obtain s1 where 1: "f s y = Inr s1" and 2: "fold_err f s1 ys = Inr s'"
    by (auto split: sum.splits)
  have s1: "I s1" by (rule Cons.prems(3)[OF Cons.prems(2) _ 1]) simp
  show ?case
  proof (rule Cons.IH[OF 2 s1])
    fix t x t' assume "I t" "x \<in> set ys" "f t x = Inr t'"
    then show "I t'" using Cons.prems(3)[of t x t'] by simp
  qed
qed

lemma make_file_fails: "CHR ''.'' \<notin> set f \<Longrightarrow> make_file ap sp meta f = Inl UnpackError"
  by (simp add: make_file_def split_name_def)

lemma add_file_fails: "CHR ''.'' \<notin> set f \<Longrightarrow> add_file ap sp meta acc f = Inl UnpackError"
  by (simp add: add_file_def make_file_fails)

lemma construct_entry_fails:
  assumes "f \<in> set (snd e)" "CHR ''.'' \<notin> set f"
  shows "\<exists>err. construct_entry ap md ref c e = Inl err"
proof (cases "parse_meta md ref (c_modal c) (fst e)")
  case (Inl err)
  then show ?thesis by (simp add: construct_entry_def)
next
  case pm: (Inr meta)
  show ?thesis
  proof (cases "lookup_session (fst meta) (fst (snd meta)) (snd (snd meta)) c")
    case (Inl err)
    with pm show ?thesis by (simp add: construct_entry_def)
  next
    case (Inr kc)
    obtain k c1 where kc: "kc = (k, c1)" by (cases kc)
    have "\<exists>err. fold_err (add_file ap (fst e) meta) (c_session_list c1 ! k, c_file_list c1) (snd e) = Inl err"
    proof (rule fold_err_fails[of f])
      show "f \<in> set (snd e)" by (rule assms(1))
      show "\<exists>err. add_file ap (fst e) meta s f = Inl err" for s
        using assms(2) by (simp add: add_file_fails)
    qed
    then obtain err where
      fe: "fold_err (add_file ap (fst e) meta) (c_session_list c1 ! k, c_file_list c1) (snd e) = Inl err" ..
    have "construct_entry ap md ref c e = Inl err"
      by (simp add: construct_entry_def pm Inr kc fe)
    then show ?thesis ..
  qed
qed

section \<open>File names without a dot\<close>

lemma constructor_fails_without_dot:
  assumes "map_of files md = Some d" "e \<in> set d" "f \<in> set (snd e)" "CHR ''.'' \<notin> set f"
  shows "\<exists>err. constructor ap md files ref m = Inl err"
proof -
  let ?c = "\<lparr>processed = [], c_session_list = [], c_file_list = [], c_modal = MBool m\<rparr>"
  have "\<exists>err. fold_err (construct_entry ap md ref) ?c d = Inl err"
    by (rule fold_err_fails[of e, OF assms(2)]) (rule construct_entry_fails[OF assms(3,4)])
  then obtain err where "fold_err (construct_entry ap md ref) ?c d = Inl err" ..
  with assms(1) show ?thesis by (simp add: constructor_def)
qed

lemma dataset_init_fails_with_constructor:
  assumes "constructor pth (max_depth (parse_all pth False fs))
             (files_by_depth (parse_all pth False fs)) ref m = Inl err"
  shows "\<exists>err'. fst (dataset_init ref m pth vld None fs st) = Inl err'"
proof (cases "if vld then map_sum id Some (validate ref m (parse_all pth False fs)) else Inr None")
  case (Inl e)
  then show ?thesis by (simp add: dataset_init_def Let_def)
next
  case (Inr i)
  with assms show ?thesis by (simp add: dataset_init_def Let_def)
qed

text \<open>
  Claim C9. When a file at max depth has no dot in its name, the constructor raises an
  error (in the model: it returns \<open>Inl\<close>), whatever else the tree holds, and no facade is
  built from the scan; so a facade is only built when every file name at max depth has a
  dot. The unpacking of \<open>f.split('.', 1)\<close> is what fails for that file; an earlier entry
  of the loop may have raised before it is reached.
\<close>

theorem dotless_file_fails:
  assumes "map_of (files_by_depth (parse_all pth False fs)) (max_depth (parse_all pth False fs)) = Some d"
    and "e \<in> set d" and "f \<in> set (snd e)" and "CHR ''.'' \<notin> set f"
  shows "(\<exists>err. constructor pth (max_depth (parse_all pth False fs))
                  (files_by_depth (parse_all pth False fs)) ref m = Inl err) \<and>
         (\<exists>err. fst (dataset_init ref m pth vld None fs st) = Inl err)"
proof -
  from constructor_fails_without_dot[OF assms] obtain err where
    c: "constructor pth (max_depth (parse_all pth False fs))
          (files_by_depth (parse_all pth False fs)) ref m = Inl err" ..
  from dataset_init_fails_with_constructor[OF c] c show ?thesis by blast
qed

theorem dotless_file_fails_witness:
  "map_of (files_by_depth (parse_all ''/data'' False (Some tree_no_dot)))
     (max_depth (parse_all ''/data'' False (Some tree_no_dot))) = Some [(''sub-01/anat'', [''README''])] \<and>
   max_depth (parse_all ''/data'' False (Some tree_no_dot)) \<in> set (ref_list raw_ref) \<and>
   CHR ''.'' \<notin> set ''README'' \<and>
   (\<exists>err. constructor ''/data'' (max_depth (parse_all ''/data'' False (Some tree_no_dot)))
            (files_by_depth (parse_all ''/data'' False (Some tree_no_dot))) raw_ref True = Inl err) \<and>
   (\<exists>err. fst (dataset_init raw_ref True ''/data'' False None (Some tree_no_dot) []) = Inl err) \<and>
   fst (RawDataset ''/data'' False None (Some tree_no_dot) []) = Inl UnpackError"
proof -
  have 1: "map_of (files_by_depth (parse_all ''/data'' False (Some tree_no_dot)))
     (max_depth (parse_all ''/data'' False (Some tree_no_dot))) = Some [(''sub-01/anat'', [''README''])]"
    by code_simp
  have 2: "max_depth (parse_all ''/data'' False (Some tree_no_dot)) \<in> set (ref_list raw_ref)"
    by code_simp
  have 3: "CHR ''.'' \<notin> set ''README''" by simp
  have 4: "fst (RawDataset ''/data'' False None (Some tree_no_dot) []) = Inl UnpackError"
    by code_simp
  have 5: "(''sub-01/anat'', [''README'']) \<in> set [(''sub-01/anat'', [''README''])]" by simp
  have 6: "''README'' \<in> set (snd (''sub-01/anat'', [''README'']))" by simp
  from dotless_file_fails[OF 1 5 6 3, of raw_ref True False "[]"] 1 2 3 4 show ?thesis by blast
qed

section \<open>The constructor builds two indexes that agree\<close>

lemma make_file_fields:
  "make_file ap sp meta f = Inr r \<Longrightarrow>
     subject r = fst meta \<and> session r = fst (snd meta) \<and> modal r = snd (snd meta) \<and>
     annotation r = Some (last (abs_path_list ap)) \<and> absdir r = path_join ap sp \<and>
     split_name f = Some (filename r, fileext r)"
  by (auto simp: make_file_def split: option.splits list.splits)

lemma mset_bucket_append:
  "mset (concat (map snd (AList.update k ((case map_of d k of None \<Rightarrow> [] | Some xs \<Rightarrow> xs) @ [x]) d))) =
     mset (concat (map snd d)) + {#x#}"
  by (induction d) auto

lemma mset_bucket_replace:
  "map_of d k = Some xs \<Longrightarrow> mset ys = mset xs \<Longrightarrow>
     mset (concat (map snd (AList.update k ys d))) = mset (concat (map snd d))"
  by (induction d) auto

lemma nonempty_bucket_update:
  "list_all (\<lambda>e. snd e \<noteq> []) d \<Longrightarrow> v \<noteq> [] \<Longrightarrow> list_all (\<lambda>e. snd e \<noteq> []) (AList.update k v d)"
  by (induction d) auto

lemma add_file_char:
  assumes "add_file ap sp meta acc f = Inr acc'"
  shows "\<exists>r. make_file ap sp meta f = Inr r \<and> snd acc' = snd acc @ [r] \<and>
           s_subject (fst acc') = s_subject (fst acc) \<and> s_session (fst acc') = s_session (fst acc) \<and>
           mset (files_in (s_files (fst acc'))) = mset (files_in (s_files (fst acc))) + {#r#} \<and>
           (nonempty_buckets (s_files (fst acc)) \<longrightarrow> nonempty_buckets (s_files (fst acc')))"
proof -
  from assms obtain r where r: "make_file ap sp meta f = Inr r"
    by (cases "make_file ap sp meta f") (auto simp: add_file_def)
  show ?thesis
  proof (cases "s_files (fst acc)")
    case (FList xs)
    with assms r show ?thesis
      by (auto simp: add_file_def files_in_def nonempty_buckets_def split: if_splits)
  next
    case (FDict d)
    with assms r show ?thesis
      by (auto simp: add_file_def files_in_def nonempty_buckets_def mset_bucket_append
          nonempty_bucket_update split: if_splits)
  qed
qed

lemma add_files_char:
  "fold_err (add_file ap sp meta) acc fns = Inr acc' \<Longrightarrow>
     \<exists>new. list_all2 (\<lambda>f r. make_file ap sp meta f = Inr r) fns new \<and> snd acc' = snd acc @ new \<and>
       s_subject (fst acc') = s_subject (fst acc) \<and> s_session (fst acc') = s_session (fst acc) \<and>
       mset (files_in (s_files (fst acc'))) = mset (files_in (s_files (fst acc))) + mset new \<and>
       (nonempty_buckets (s_files (fst acc)) \<longrightarrow> nonempty_buckets (s_files (fst acc')))"
proof (induction fns arbitrary: acc)
  case Nil
  then show ?case by simp
next
  case (Cons f fns)
  from Cons.prems obtain acc1 where 1: "add_file ap sp meta acc f = Inr acc1"
    and 2: "fold_err (add_file ap sp meta) acc1 fns = Inr acc'"
    by (auto split: sum.splits)
  from add_file_char[OF 1] obtain r where r: "make_file ap sp meta f = Inr r"
    "snd acc1 = snd acc @ [r]" "s_subject (fst acc1) = s_subject (fst acc)"
    "s_session (fst acc1) = s_session (fst acc)"
    "mset (files_in (s_files (fst acc1))) = mset (files_in (s_files (fst acc))) + {#r#}"
    "nonempty_buckets (s_files (fst acc)) \<longrightarrow> nonempty_buckets (s_files (fst acc1))" by blast
  from Cons.IH[OF 2] obtain new where n: "list_all2 (\<lambda>f r. make_file ap sp meta f = Inr r) fns new"
    "snd acc' = snd acc1 @ new" "s_subject (fst acc') = s_subject (fst acc1)"
    "s_session (fst acc') = s_session (fst acc1)"
    "mset (files_in (s_files (fst acc'))) = mset (files_in (s_files (fst acc1))) + mset new"
    "nonempty_buckets (s_files (fst acc1)) \<longrightarrow> nonempty_buckets (s_files (fst acc'))" by blast
  show ?case
    by (rule exI[of _ "r # new"]) (use r n in simp)
qed

lemma sort_session_files_char:
  assumes "sort_session_files m s = Inr s'"
  shows "s_subject s' = s_subject s \<and> s_session s' = s_session s \<and>
         mset (files_in (s_files s')) = mset (files_in (s_files s)) \<and>
         (nonempty_buckets (s_files s) \<longrightarrow> nonempty_buckets (s_files s'))"
proof (cases "s_files s")
  case (FList xs)
  with assms show ?thesis
    by (auto simp: sort_session_files_def files_in_def nonempty_buckets_def split: if_splits)
next
  case (FDict d)
  show ?thesis
  proof (cases "truthy (modal_of m)")
    case False
    with assms FDict show ?thesis
      by (auto simp: sort_session_files_def files_in_def nonempty_buckets_def split: if_splits)
  next
    case True
    with assms FDict obtain xs where m: "map_of d (the m) = Some xs"
      and s': "s' = s\<lparr>s_files := FDict (AList.update (the m) (sort_key (\<lambda>x. (filename x, fileext x)) xs) d)\<rparr>"
      by (auto simp: sort_session_files_def split: option.splits)
    have ne: "list_all (\<lambda>e. snd e \<noteq> []) d \<Longrightarrow> xs \<noteq> []"
      using map_of_SomeD[OF m] by (auto simp: list_all_iff)
    have "sort_key (\<lambda>x. (filename x, fileext x)) xs \<noteq> []" if "xs \<noteq> []"
      using that by (metis length_sort length_0_conv)
    with FDict s' m ne show ?thesis
      by (auto simp: files_in_def nonempty_buckets_def mset_bucket_replace nonempty_bucket_update)
  qed
qed

lemma find_session_Some:
  "find_session subj sess sl = Some k \<Longrightarrow>
     k < length sl \<and> s_subject (sl ! k) = subj \<and> s_session (sl ! k) = sess"
proof (induction sl arbitrary: k)
  case Nil
  then show ?case by simp
next
  case (Cons s sl)
  then show ?case by (auto split: if_splits)
qed

lemma lookup_session_char:
  assumes "lookup_session subj sess m c = Inr (k, c1)"
  shows "k < length (c_session_list c1) \<and> s_subject (c_session_list c1 ! k) = subj \<and>
         s_session (c_session_list c1 ! k) = sess \<and> c_file_list c1 = c_file_list c \<and>
         (c_session_list c1 = c_session_list c \<or>
          (\<exists>s. c_session_list c1 = c_session_list c @ [s] \<and> files_in (s_files s) = [] \<and>
               nonempty_buckets (s_files s) \<and> s_subject s = subj \<and> s_session s = sess))"
proof (cases "task_id subj sess \<in> set (processed c)")
  case True
  with assms obtain k' where "find_session subj sess (c_session_list c) = Some k'" "k = k'" "c1 = c"
    by (auto simp: lookup_session_def split: option.splits)
  with find_session_Some[of subj sess "c_session_list c" k] show ?thesis by simp
next
  case False
  with assms show ?thesis
    by (auto simp: lookup_session_def files_in_def nonempty_buckets_def nth_append)
qed

lemma mset_nested_files: "mset (nested_files sl) = (\<Sum>s\<leftarrow>sl. mset (files_in (s_files s)))"
  by (simp add: nested_files_def mset_concat comp_def)

lemma mset_nested_files_cong:
  "mset sl = mset sl' \<Longrightarrow> mset (nested_files sl) = mset (nested_files sl')"
proof -
  assume a: "mset sl = mset sl'"
  have "mset (nested_files xs) = sum_mset (image_mset (\<lambda>s. mset (files_in (s_files s))) (mset xs))" for xs
    by (simp add: mset_nested_files flip: sum_mset_sum_list)
  with a show ?thesis by simp
qed

lemma mset_nested_files_update:
  assumes "k < length sl" "mset (files_in (s_files y)) = mset (files_in (s_files (sl ! k))) + M"
  shows "mset (nested_files (sl[k := y])) = mset (nested_files sl) + M"
proof -
  have 1: "sl = take k sl @ sl ! k # drop (Suc k) sl" using assms(1) by (rule id_take_nth_drop)
  have 2: "sl[k := y] = take k sl @ y # drop (Suc k) sl" using assms(1) by (rule upd_conv_take_nth_drop)
  have "mset (nested_files sl) =
      mset (nested_files (take k sl)) + mset (files_in (s_files (sl ! k))) + mset (nested_files (drop (Suc k) sl))"
    by (subst 1) (simp add: mset_nested_files)
  moreover have "mset (nested_files (sl[k := y])) =
      mset (nested_files (take k sl)) + mset (files_in (s_files y)) + mset (nested_files (drop (Suc k) sl))"
    by (subst 2) (simp add: mset_nested_files)
  ultimately show ?thesis using assms(2) by simp
qed

lemma list_all_update:
  "list_all P xs \<Longrightarrow> P y \<Longrightarrow> list_all P (xs[k := y])"
  using set_update_subset_insert[of xs k y] by (auto simp: list_all_iff)

lemma construct_entry_char:
  assumes "construct_entry ap md ref c e = Inr c'"
  shows "\<exists>meta base k y new.
           list_all2 (\<lambda>f r. make_file ap (fst e) meta f = Inr r) (snd e) new \<and>
           c_file_list c' = c_file_list c @ new \<and>
           c_session_list c' = base[k := y] \<and> k < length base \<and>
           s_subject (base ! k) = fst meta \<and> s_session (base ! k) = fst (snd meta) \<and>
           s_subject y = fst meta \<and> s_session y = fst (snd meta) \<and>
           mset (files_in (s_files y)) = mset (files_in (s_files (base ! k))) + mset new \<and>
           (nonempty_buckets (s_files (base ! k)) \<longrightarrow> nonempty_buckets (s_files y)) \<and>
           (base = c_session_list c \<or>
            (\<exists>s. base = c_session_list c @ [s] \<and> files_in (s_files s) = [] \<and>
                 nonempty_buckets (s_files s) \<and> s_subject s = fst meta \<and> s_session s = fst (snd meta)))"
proof -
  from assms obtain meta where pm: "parse_meta md ref (c_modal c) (fst e) = Inr meta"
    by (cases "parse_meta md ref (c_modal c) (fst e)") (auto simp: construct_entry_def)
  from assms pm obtain k c1 where
    ls: "lookup_session (fst meta) (fst (snd meta)) (snd (snd meta)) c = Inr (k, c1)"
    by (cases "lookup_session (fst meta) (fst (snd meta)) (snd (snd meta)) c")
       (auto simp: construct_entry_def)
  from assms pm ls obtain sinfo fl where
    af: "fold_err (add_file ap (fst e) meta) (c_session_list c1 ! k, c_file_list c1) (snd e) = Inr (sinfo, fl)"
    by (cases "fold_err (add_file ap (fst e) meta) (c_session_list c1 ! k, c_file_list c1) (snd e)")
       (auto simp: construct_entry_def)
  from assms pm ls af obtain y where
    ss: "sort_session_files (snd (snd meta)) sinfo = Inr y"
    and c': "c' = c1\<lparr>c_session_list := (c_session_list c1)[k := y], c_file_list := fl,
                     c_modal := modal_of (snd (snd meta))\<rparr>"
    by (cases "sort_session_files (snd (snd meta)) sinfo") (auto simp: construct_entry_def)
  note L = lookup_session_char[OF ls]
  from add_files_char[OF af] obtain new where
    n: "list_all2 (\<lambda>f r. make_file ap (fst e) meta f = Inr r) (snd e) new"
       "fl = c_file_list c1 @ new"
       "s_subject sinfo = s_subject (c_session_list c1 ! k)"
       "s_session sinfo = s_session (c_session_list c1 ! k)"
       "mset (files_in (s_files sinfo)) = mset (files_in (s_files (c_session_list c1 ! k))) + mset new"
       "nonempty_buckets (s_files (c_session_list c1 ! k)) \<longrightarrow> nonempty_buckets (s_files sinfo)"
    by auto
  note S = sort_session_files_char[OF ss]
  show ?thesis
    apply (rule exI[of _ meta], rule exI[of _ "c_session_list c1"], rule exI[of _ k],
        rule exI[of _ y], rule exI[of _ new])
    using L n S c' by simp
qed

lemma list_all2_make_file:
  "list_all2 (\<lambda>f r. make_file ap sp meta f = Inr r) fns new \<Longrightarrow> r \<in> set new \<Longrightarrow>
     \<exists>f\<in>set fns. make_file ap sp meta f = Inr r"
  by (induction rule: list_all2_induct) auto

lemma construct_entry_inv:
  assumes ce: "construct_entry ap md ref c e = Inr c'"
    and ia: "indexes_agree (c_session_list c) (c_file_list c)"
    and an: "list_all (\<lambda>f. annotation f = Some (root_name ap)) (c_file_list c)"
  shows "indexes_agree (c_session_list c') (c_file_list c') \<and>
         list_all (\<lambda>f. annotation f = Some (root_name ap)) (c_file_list c')"
proof -
  from construct_entry_char[OF ce] obtain meta base k y new where
    new: "list_all2 (\<lambda>f r. make_file ap (fst e) meta f = Inr r) (snd e) new"
    and fl: "c_file_list c' = c_file_list c @ new"
    and sl: "c_session_list c' = base[k := y]" and k: "k < length base"
    and bk: "s_subject (base ! k) = fst meta" "s_session (base ! k) = fst (snd meta)"
    and yk: "s_subject y = fst meta" "s_session y = fst (snd meta)"
    and ym: "mset (files_in (s_files y)) = mset (files_in (s_files (base ! k))) + mset new"
    and yn: "nonempty_buckets (s_files (base ! k)) \<longrightarrow> nonempty_buckets (s_files y)"
    and base: "base = c_session_list c \<or>
            (\<exists>s. base = c_session_list c @ [s] \<and> files_in (s_files s) = [] \<and>
                 nonempty_buckets (s_files s) \<and> s_subject s = fst meta \<and> s_session s = fst (snd meta))"
    by blast
  have newp: "subject r = fst meta \<and> session r = fst (snd meta) \<and> annotation r = Some (root_name ap)"
    if "r \<in> set new" for r
  proof -
    from list_all2_make_file[OF new that] obtain f where "make_file ap (fst e) meta f = Inr r" by blast
    from make_file_fields[OF this] show ?thesis by (simp add: root_name_def)
  qed
  from base ia have b1: "list_all session_ok base"
    by (auto simp: indexes_agree_def session_ok_def)
  from base ia have b2: "mset (nested_files base) = mset (c_file_list c)"
    by (auto simp: indexes_agree_def mset_nested_files)
  from b1 k have bok: "session_ok (base ! k)" by (simp add: list_all_length)
  have "set (files_in (s_files y)) = set (files_in (s_files (base ! k))) \<union> set new"
    using ym by (metis set_mset_mset set_mset_union)
  with bok bk yk yn newp have yok: "session_ok y"
    by (auto simp: session_ok_def list_all_iff)
  have 1: "list_all session_ok (base[k := y])" using b1 yok by (rule list_all_update)
  have 2: "mset (nested_files (base[k := y])) = mset (nested_files base) + mset new"
    using k ym by (rule mset_nested_files_update)
  have 3: "list_all (\<lambda>f. annotation f = Some (root_name ap)) (c_file_list c @ new)"
    using an newp by (auto simp: list_all_iff)
  from 1 2 3 b2 fl sl show ?thesis by (simp add: indexes_agree_def)
qed

lemma constructor_inv:
  assumes "constructor ap md files ref m = Inr (sl, fl)"
  shows "indexes_agree sl fl \<and> list_all (\<lambda>f. annotation f = Some (root_name ap)) fl"
proof -
  let ?c0 = "\<lparr>processed = [], c_session_list = [], c_file_list = [], c_modal = MBool m\<rparr>"
  let ?I = "\<lambda>c. indexes_agree (c_session_list c) (c_file_list c) \<and>
                 list_all (\<lambda>f. annotation f = Some (root_name ap)) (c_file_list c)"
  from assms obtain d c where d: "map_of files md = Some d"
    and f: "fold_err (construct_entry ap md ref) ?c0 d = Inr c"
    and sl: "sl = sort_key (\<lambda>x. (s_subject x, s_session x)) (c_session_list c)"
    and fl: "fl = sort_key (\<lambda>x. (subject x, session x, modal x, filename x, fileext x)) (c_file_list c)"
    by (auto simp: constructor_def split: option.splits sum.splits)
  have "?I c"
  proof (rule fold_err_invariant[OF f, where I = ?I])
    show "?I ?c0" by (simp add: indexes_agree_def nested_files_def)
  next
    fix s x s' assume "?I s" "x \<in> set d" "construct_entry ap md ref s x = Inr s'"
    then show "?I s'" using construct_entry_inv[of ap md ref s x s'] by simp
  qed
  then have a: "mset (c_file_list c) = mset (nested_files (c_session_list c))"
    and b: "list_all session_ok (c_session_list c)"
    and an: "list_all (\<lambda>f. annotation f = Some (root_name ap)) (c_file_list c)"
    by (simp_all add: indexes_agree_def)
  have "mset (nested_files sl) = mset (nested_files (c_session_list c))"
    unfolding sl by (rule mset_nested_files_cong) simp
  moreover have "list_all session_ok sl" using b unfolding sl by (simp add: list_all_iff)
  moreover have "list_all (\<lambda>f. annotation f = Some (root_name ap)) fl"
    using an unfolding fl by (simp add: list_all_iff)
  moreover have "mset fl = mset (c_file_list c)" unfolding fl by simp
  ultimately show ?thesis using a by (simp add: indexes_agree_def)
qed

section \<open>What the filters keep\<close>

lemma when_sel_filter: "when_sel x P xs = filter (\<lambda>e. sel_ok x (\<lambda>l. P l e)) xs"
  by (simp add: when_sel_def sel_ok_def split: option.splits)

lemma when_str_filter: "when_str x P xs = filter (\<lambda>e. str_ok x (\<lambda>s. P s e)) xs"
  by (simp add: when_str_def str_ok_def split: option.splits)

lemma filter_nested_eq: "filter_nested rx a fl = filter (keep_nested rx a) fl"
  unfolding filter_nested_def Let_def when_sel_filter when_str_filter keep_nested_def
  by (simp add: conj_commute conj_left_commute)

lemma filter_file_list_eq: "filter_file_list rx a fl = filter (keep_file rx a) fl"
  unfolding filter_file_list_def Let_def when_sel_filter when_str_filter keep_file_def
    keep_nested_def keep_session_def
  by (simp add: conj_commute conj_left_commute)

lemma concat_pruned:
  "concat (map snd (filter (\<lambda>e. snd e \<noteq> []) (map (\<lambda>e. (fst e, filter P (snd e))) d))) =
     filter P (concat (map snd d))"
  by (induction d) auto

lemma session_filter_body_files:
  "files_in (s_files (session_filter_body rx a s)) = filter (keep_nested rx a) (files_in (s_files s))"
  by (cases "s_files s") (simp_all add: session_filter_body_def files_in_def filter_nested_eq concat_pruned)

lemma session_filter_body_fields:
  "s_subject (session_filter_body rx a s) = s_subject s \<and>
   s_session (session_filter_body rx a s) = s_session s \<and>
   nonempty_buckets (s_files (session_filter_body rx a s))"
  by (cases "s_files s") (simp_all add: session_filter_body_def nonempty_buckets_def list_all_iff)

lemma session_filter_body_ok: "session_ok s \<Longrightarrow> session_ok (session_filter_body rx a s)"
  by (simp add: session_ok_def session_filter_body_files session_filter_body_fields list_all_iff)

lemma nested_files_body:
  "nested_files (map (session_filter_body rx a) ss) = filter (keep_nested rx a) (nested_files ss)"
  by (simp add: nested_files_def filter_concat comp_def session_filter_body_files)

lemma nested_files_kept:
  "list_all session_ok ss \<Longrightarrow>
     filter (keep_nested rx a) (nested_files (filter (\<lambda>s. keep_session a (s_subject s) (s_session s)) ss)) =
     filter (keep_file rx a) (nested_files ss)"
proof (induction ss)
  case Nil
  then show ?case by (simp add: nested_files_def)
next
  case (Cons s ss)
  from Cons.prems have ok: "\<forall>f\<in>set (files_in (s_files s)). subject f = s_subject s \<and> session f = s_session s"
    by (simp add: session_ok_def list_all_iff)
  have 1: "filter (keep_file rx a) (files_in (s_files s)) =
      (if keep_session a (s_subject s) (s_session s) then filter (keep_nested rx a) (files_in (s_files s)) else [])"
    using ok by (auto simp: keep_file_def filter_empty_conv intro: filter_cong)
  from Cons show ?case by (simp add: nested_files_def 1)
qed

lemma body_no_args: "nonempty_buckets (s_files s) \<Longrightarrow> session_filter_body rx no_args s = s"
proof (cases "s_files s")
  case (FList xs)
  then show ?thesis
    by (simp add: session_filter_body_def filter_nested_def no_args_def when_sel_def when_str_def)
next
  case (FDict d)
  assume "nonempty_buckets (s_files s)"
  with FDict have "filter (\<lambda>e. snd e \<noteq> []) d = d" by (simp add: nonempty_buckets_def list_all_iff)
  with FDict show ?thesis
    by (simp add: session_filter_body_def filter_nested_def no_args_def when_sel_def when_str_def)
qed

lemma keep_file_no_args: "keep_file rx no_args f"
  by (simp add: keep_file_def keep_nested_def keep_session_def sel_ok_def str_ok_def no_args_def)

lemma keep_session_no_args: "keep_session no_args subj sess"
  by (simp add: keep_session_def sel_ok_def no_args_def)

section \<open>Facades keep their indexes consistent\<close>

lemma filter_lists_char:
  assumes r: "list_all (\<lambda>b. b < length st) sl"
    and f: "filter_lists rx a st fl sl = (fl', sl', st')"
  shows "fl' = filter (keep_file rx a) fl \<and>
         map (\<lambda>b. st' ! b) sl' =
           map (session_filter_body rx a)
             (filter (\<lambda>s. keep_session a (s_subject s) (s_session s)) (map (\<lambda>b. st ! b) sl)) \<and>
         list_all (\<lambda>b. b < length st') sl'"
proof -
  let ?s2 = "filter (\<lambda>b. keep_session a (s_subject (st ! b)) (s_session (st ! b))) sl"
  have s2: "when_sel (f_session a) (\<lambda>xs b. opt_in (s_session (st ! b)) xs)
              (when_sel (f_subject a) (\<lambda>xs b. s_subject (st ! b) \<in> set xs) sl) = ?s2"
    by (simp add: when_sel_filter keep_session_def conj_commute)
  from f have sf: "session_filter rx a st ?s2 = (st', sl')" and fl': "fl' = filter_file_list rx a fl"
    by (auto simp: filter_lists_def Let_def s2 split: prod.splits)
  have r2: "\<forall>b\<in>set ?s2. b < length st" using r by (auto simp: list_all_iff)
  from session_filter_contents[OF sf r2]
  have c: "map (\<lambda>b. st' ! b) sl' = map (\<lambda>b. session_filter_body rx a (st ! b)) ?s2" .
  have "map (\<lambda>b. session_filter_body rx a (st ! b)) ?s2 =
      map (session_filter_body rx a)
        (filter (\<lambda>s. keep_session a (s_subject s) (s_session s)) (map (\<lambda>b. st ! b) sl))"
    by (simp add: filter_map comp_def)
  moreover from session_filter_frame[OF sf] have "list_all (\<lambda>b. b < length st') sl'"
    by (auto simp: list_all_iff)
  ultimately show ?thesis using c fl' by (simp add: filter_file_list_eq)
qed

lemma dataset_filter_char:
  assumes f: "dataset_filter ref m rx d a fs st = (Inr d', st')"
    and c: "consistent st d"
  shows "file_list d' = filter (keep_file rx a) (file_list d) \<and>
         sessions_of st' d' =
           map (session_filter_body rx a)
             (filter (\<lambda>s. keep_session a (s_subject s) (s_session s)) (sessions_of st d)) \<and>
         list_all (\<lambda>b. b < length st') (session_list d') \<and> ids d' = ids d \<and> path d' = path d"
proof -
  obtain fl sl st1 where fls: "filter_lists rx a st (file_list d) (session_list d) = (fl, sl, st1)"
    by (cases "filter_lists rx a st (file_list d) (session_list d)") auto
  from c have r: "list_all (\<lambda>b. b < length st) (session_list d)" by (simp add: consistent_def)
  note L = filter_lists_char[OF r fls]
  from f fls obtain i where i: "ids d = Some i"
    by (cases "ids d") (auto simp: dataset_filter_def)
  from f fls i have "st' = st1" "file_list d' = fl" "session_list d' = sl" "ids d' = Some i"
    "path d' = path d"
    by (auto simp: dataset_filter_def dataset_init_inherits)
  with L i show ?thesis by (simp add: sessions_of_def)
qed

lemma dataset_filter_consistent:
  assumes f: "dataset_filter ref m rx d a fs st = (Inr d', st')"
    and c: "consistent st d"
  shows "consistent st' d'"
proof -
  note C = dataset_filter_char[OF f c]
  from c have ia: "indexes_agree (sessions_of st d) (file_list d)" by (simp add: consistent_def)
  then have ok: "list_all session_ok (sessions_of st d)" and
    ms: "mset (file_list d) = mset (nested_files (sessions_of st d))"
    by (simp_all add: indexes_agree_def)
  have "nested_files (sessions_of st' d') = filter (keep_file rx a) (nested_files (sessions_of st d))"
    using C ok by (simp add: nested_files_body nested_files_kept)
  then have 1: "mset (file_list d') = mset (nested_files (sessions_of st' d'))"
    using C ms by simp
  have 2: "list_all session_ok (sessions_of st' d')"
    using C ok by (auto simp: list_all_iff session_filter_body_ok)
  from 1 2 C show ?thesis by (simp add: consistent_def indexes_agree_def)
qed

lemma dataset_filter_succeeds:
  "ids d = Some i \<Longrightarrow> \<exists>d'. fst (dataset_filter ref m rx d a fs st) = Inr d'"
  by (auto simp: dataset_filter_def dataset_init_inherits split: prod.splits)

lemma map_sum_Some_Inr: "map_sum id Some v = Inr x \<Longrightarrow> \<exists>y. x = Some y"
  by (cases v) auto

lemma dataset_init_char:
  assumes "dataset_init ref m pth vld None fs st = (Inr d, st')"
  shows "\<exists>sl. constructor pth (max_depth (parse_all pth False fs))
                 (files_by_depth (parse_all pth False fs)) ref m = Inr (sl, file_list d) \<and>
              st' = st @ sl \<and> session_list d = [length st ..< length st + length sl] \<and>
              path d = pth \<and> (vld \<longrightarrow> ids d \<noteq> None)"
  using assms
  by (auto simp: dataset_init_def Let_def split: sum.splits if_splits dest: map_sum_Some_Inr)

lemma sessions_of_fresh:
  "session_list d = [length st ..< length st + length sl] \<Longrightarrow> sessions_of (st @ sl) d = sl"
  by (auto simp: sessions_of_def intro!: nth_equalityI)

lemma dataset_init_consistent:
  assumes "dataset_init ref m pth vld None fs st = (Inr d, st')"
  shows "consistent st' d \<and> list_all (\<lambda>f. annotation f = Some (root_name pth)) (file_list d)"
proof -
  from dataset_init_char[OF assms] obtain sl where
    c: "constructor pth (max_depth (parse_all pth False fs))
          (files_by_depth (parse_all pth False fs)) ref m = Inr (sl, file_list d)"
    and s: "st' = st @ sl" "session_list d = [length st ..< length st + length sl]" by blast
  from constructor_inv[OF c] sessions_of_fresh[OF s(2)] s show ?thesis
    by (simp add: consistent_def list_all_iff)
qed

lemma consistent_extend: "consistent st d \<Longrightarrow> consistent (st @ ext) d"
proof -
  assume c: "consistent st d"
  then have "sessions_of (st @ ext) d = sessions_of st d"
    by (auto simp: consistent_def sessions_of_def list_all_iff nth_append)
  with c show ?thesis by (auto simp: consistent_def list_all_iff)
qed

lemma reachable_consistent: "reachable st d \<Longrightarrow> consistent st d"
proof (induction rule: reachable.induct)
  case (constructed ref m pth vld fs st d st')
  then show ?case by (simp add: dataset_init_consistent)
next
  case (filtered st d ref m rx a fs d' st')
  then show ?case by (simp add: dataset_filter_consistent)
next
  case (allocated st d ext)
  from allocated.IH show ?case by (rule consistent_extend)
qed

lemma dataset_filter_nested:
  assumes f: "dataset_filter ref m rx d a fs st = (Inr d', st')"
    and c: "consistent st d"
  shows "nested_files (sessions_of st' d') = filter (keep_file rx a) (nested_files (sessions_of st d))"
proof -
  note C = dataset_filter_char[OF f c]
  from c have ok: "list_all session_ok (sessions_of st d)"
    by (simp add: consistent_def indexes_agree_def)
  show ?thesis using C ok by (simp add: nested_files_body nested_files_kept)
qed

lemma junk_init_eq: "dataset_init raw_ref True ''/data'' True None (Some tree_junk) [] = (Inr junk_dataset, junk_store)"
  by code_simp

lemma junk_reachable: "reachable junk_store junk_dataset"
proof -
  have "wf_fs (Some tree_junk)" by code_simp
  then show ?thesis using junk_init_eq by (rule reachable.constructed)
qed

section \<open>Filtering without predicates\<close>

text \<open>
  What holds in general: on a facade that was built from a scan or returned by \<open>filter\<close>
  and that holds the attributes \<open>subjects\<close>, \<open>sessions\<close> and \<open>modals\<close> (it was built with
  \<open>validate=True\<close>, or by \<open>filter\<close>), \<open>filter()\<close> with no argument returns a facade with the
  same file list and the same sessions, in the same order and with the same nested file
  collections.
\<close>

lemma filter_without_predicates_validated:
  assumes r: "reachable st d" and i: "ids d = Some i"
  shows "\<exists>d'. fst (dataset_filter ref m rx d no_args fs st) = Inr d' \<and>
           file_list d' = file_list d \<and>
           sessions_of (snd (dataset_filter ref m rx d no_args fs st)) d' = sessions_of st d"
proof -
  from dataset_filter_succeeds[OF i] obtain d' where
    d': "fst (dataset_filter ref m rx d no_args fs st) = Inr d'" ..
  let ?st' = "snd (dataset_filter ref m rx d no_args fs st)"
  from d' have f: "dataset_filter ref m rx d no_args fs st = (Inr d', ?st')"
    by (metis prod.collapse)
  from r have c: "consistent st d" by (rule reachable_consistent)
  note C = dataset_filter_char[OF f c]
  from c have ne: "\<forall>s\<in>set (sessions_of st d). nonempty_buckets (s_files s)"
    by (simp add: consistent_def indexes_agree_def session_ok_def list_all_iff)
  have 1: "file_list d' = file_list d" using C by (simp add: keep_file_no_args)
  have "map (session_filter_body rx no_args) (sessions_of st d) = sessions_of st d"
    using ne by (simp add: body_no_args map_idI)
  with C have 2: "sessions_of ?st' d' = sessions_of st d" by (simp add: keep_session_no_args)
  from d' 1 2 show ?thesis by blast
qed

lemma filter_without_predicates_validated_example:
  "reachable junk_store junk_dataset \<and>
   ids junk_dataset = Some \<lparr>subjects = None, sessions = Some [], modals = Some [''anat'']\<rparr> \<and>
   length (file_list junk_dataset) = 3 \<and>
   (\<exists>d'. fst (dataset_filter raw_ref True literal_match junk_dataset no_args (Some tree_junk) junk_store) = Inr d' \<and>
      file_list d' = file_list junk_dataset \<and>
      sessions_of (snd (dataset_filter raw_ref True literal_match junk_dataset no_args (Some tree_junk) junk_store)) d' =
        sessions_of junk_store junk_dataset)"
proof -
  have i: "ids junk_dataset = Some \<lparr>subjects = None, sessions = Some [], modals = Some [''anat'']\<rparr>"
    by code_simp
  have l: "length (file_list junk_dataset) = 3" by code_simp
  from filter_without_predicates_validated[OF junk_reachable i, of raw_ref True literal_match "Some tree_junk"]
    junk_reachable i l show ?thesis by blast
qed

lemma filter_unvalidated_raises:
  "ids d = None \<Longrightarrow> fst (dataset_filter ref m rx d a fs st) = Inl AttributeError"
  by (simp add: dataset_filter_def split: prod.splits)

lemma two_sessions_init_eq:
  "dataset_init raw_ref True ''/data'' False None (Some tree_two_sessions) [] =
     (Inr two_sessions_dataset, two_sessions_store)"
  by code_simp

lemma two_sessions_reachable: "reachable two_sessions_store two_sessions_dataset"
proof -
  have "wf_fs (Some tree_two_sessions)" by code_simp
  then show ?thesis using two_sessions_init_eq by (rule reachable.constructed)
qed

text \<open>
  Claim C7. For every valid constructed facade, \<open>filter()\<close> with no predicates should
  return a facade with the same file list and session list. The facade built from the
  valid two-session tree with \<open>validate=False\<close> holds two files in two sessions, and
  \<open>filter()\<close> on it raises \<open>AttributeError\<close>: \<open>filter\<close> reads \<open>self.subjects\<close>, \<open>self.sessions\<close>
  and \<open>self.modals\<close>, which only \<open>_validate\<close> and \<open>_inherits\<close> assign. (With \<open>validate=True\<close> no
  facade of this tree exists at all, as the end-to-end example shows.)
\<close>

theorem filter_without_predicates_raises:
  "two_sessions_init = (Inr two_sessions_dataset, two_sessions_store) \<and>
   reachable two_sessions_store two_sessions_dataset \<and>
   length (file_list two_sessions_dataset) = 2 \<and>
   length (sessions_of two_sessions_store two_sessions_dataset) = 2 \<and>
   ids two_sessions_dataset = None \<and>
   fst (RawDataset_filter literal_match two_sessions_dataset no_args (Some tree_two_sessions)
          two_sessions_store) = Inl AttributeError"
proof -
  have 1: "two_sessions_init = (Inr two_sessions_dataset, two_sessions_store)" by code_simp
  have 2: "length (file_list two_sessions_dataset) = 2" by code_simp
  have 3: "length (sessions_of two_sessions_store two_sessions_dataset) = 2" by code_simp
  have 4: "ids two_sessions_dataset = None" by code_simp
  have 5: "fst (RawDataset_filter literal_match two_sessions_dataset no_args (Some tree_two_sessions)
          two_sessions_store) = Inl AttributeError"
    using filter_unvalidated_raises[OF 4] by (simp add: RawDataset_filter_def)
  from 1 two_sessions_reachable 2 3 4 5 show ?thesis by simp
qed

section \<open>The annotation of a file\<close>

lemma keep_file_annotation:
  "A \<noteq> [] \<Longrightarrow> keep_file rx (no_args\<lparr>f_annotation := Some (Str A)\<rparr>) f = (annotation f = Some A)"
  by (auto simp: keep_file_def keep_nested_def keep_session_def sel_ok_def str_ok_def no_args_def
      opt_in_def split: option.splits)

lemma filter_annotation:
  "list_all (\<lambda>f. annotation f = Some r) fl \<Longrightarrow> A \<noteq> [] \<Longrightarrow>
     filter (keep_file rx (no_args\<lparr>f_annotation := Some (Str A)\<rparr>)) fl = (if A = r then fl else [])"
  by (auto simp: keep_file_annotation list_all_iff filter_empty_conv)

text \<open>
  Claim C10 says that \<open>filter(annotation=A)\<close> removes every record when \<open>A\<close> is not the last
  segment of the scan root. The argument is tested for truth before it is used, so the
  empty string counts as absent: here it keeps all three records of a facade whose root
  is \<open>data\<close>.
\<close>

theorem empty_annotation_keeps_all:
  "root_name ''/data'' = ''data'' \<and> length (file_list junk_dataset) = 3 \<and>
   map_sum id file_list (fst (RawDataset_filter literal_match junk_dataset
      (no_args\<lparr>f_annotation := Some (Str '''')\<rparr>) (Some tree_junk) junk_store)) = Inr (file_list junk_dataset)"
  by code_simp

text \<open>
  Claim C10, amended. Every \<open>FileItem\<close> of a facade built from a scan, in the flat list
  and nested in the sessions, has the last segment of the scan root as its annotation, and
  for a non-empty string \<open>A\<close>, \<open>filter(annotation=A)\<close> keeps all of them when \<open>A\<close> is that
  segment and none of them otherwise. (When the facade was built with \<open>validate=False\<close>,
  \<open>filter\<close> raises \<open>AttributeError\<close> instead.)
\<close>

theorem annotation_is_root_name:
  assumes init: "dataset_init ref m pth vld None fs st = (Inr d, st1)" and A: "A \<noteq> []"
  shows "list_all (\<lambda>f. annotation f = Some (root_name pth)) (file_list d) \<and>
         list_all (\<lambda>f. annotation f = Some (root_name pth)) (nested_files (sessions_of st1 d)) \<and>
         (case dataset_filter ref' m' rx d (no_args\<lparr>f_annotation := Some (Str A)\<rparr>) fs' st1 of
            (Inr d', st2) \<Rightarrow>
              file_list d' = (if A = root_name pth then file_list d else []) \<and>
              nested_files (sessions_of st2 d') =
                (if A = root_name pth then nested_files (sessions_of st1 d) else [])
          | (Inl e, st2) \<Rightarrow> e = AttributeError \<and> \<not> vld)"
proof -
  from dataset_init_consistent[OF init] have c: "consistent st1 d"
    and an: "list_all (\<lambda>f. annotation f = Some (root_name pth)) (file_list d)" by simp_all
  from c have "set (nested_files (sessions_of st1 d)) = set (file_list d)"
    by (metis consistent_def indexes_agree_def set_mset_mset)
  with an have an2: "list_all (\<lambda>f. annotation f = Some (root_name pth)) (nested_files (sessions_of st1 d))"
    by (simp add: list_all_iff)
  let ?a = "no_args\<lparr>f_annotation := Some (Str A)\<rparr>"
  obtain res st2 where R: "dataset_filter ref' m' rx d ?a fs' st1 = (res, st2)"
    by (cases "dataset_filter ref' m' rx d ?a fs' st1") auto
  have "case res of Inr d' \<Rightarrow>
              file_list d' = (if A = root_name pth then file_list d else []) \<and>
              nested_files (sessions_of st2 d') =
                (if A = root_name pth then nested_files (sessions_of st1 d) else [])
          | Inl e \<Rightarrow> e = AttributeError \<and> \<not> vld"
  proof (cases res)
    case (Inr d')
    with R have f: "dataset_filter ref' m' rx d ?a fs' st1 = (Inr d', st2)" by simp
    from dataset_filter_char[OF f c] dataset_filter_nested[OF f c]
      filter_annotation[OF an A] filter_annotation[OF an2 A]
    show ?thesis using Inr by simp
  next
    case (Inl e)
    from dataset_init_char[OF init] have v: "vld \<longrightarrow> ids d \<noteq> None" by blast
    from R Inl have "e = AttributeError \<and> ids d = None"
      by (cases "ids d") (auto simp: dataset_filter_def dataset_init_inherits split: prod.splits)
    with v Inl show ?thesis by auto
  qed
  with R an an2 show ?thesis by (simp split: sum.splits)
qed

theorem annotation_is_root_name_witness:
  "junk_init = (Inr junk_dataset, junk_store) \<and> root_name ''/data'' = ''data'' \<and>
   list_all (\<lambda>f. annotation f = Some ''data'') (file_list junk_dataset) \<and>
   map_sum id file_list (fst (RawDataset_filter literal_match junk_dataset
      (no_args\<lparr>f_annotation := Some (Str ''data'')\<rparr>) (Some tree_junk) junk_store)) = Inr (file_list junk_dataset) \<and>
   map_sum id file_list (fst (RawDataset_filter literal_match junk_dataset
      (no_args\<lparr>f_annotation := Some (Str ''proc'')\<rparr>) (Some tree_junk) junk_store)) = Inr []"
proof -
  have 0: "junk_init = (Inr junk_dataset, junk_store)" by code_simp
  have 1: "root_name ''/data'' = ''data''" by code_simp
  have 2: "map_sum id file_list (fst (RawDataset_filter literal_match junk_dataset
      (no_args\<lparr>f_annotation := Some (Str ''data'')\<rparr>) (Some tree_junk) junk_store)) = Inr (file_list junk_dataset)"
    by code_simp
  have 3: "map_sum id file_list (fst (RawDataset_filter literal_match junk_dataset
      (no_args\<lparr>f_annotation := Some (Str ''proc'')\<rparr>) (Some tree_junk) junk_store)) = Inr []"
    by code_simp
  have 4: "''data'' \<noteq> []" by simp
  from annotation_is_root_name[OF junk_init_eq 4, of raw_ref True literal_match "Some tree_junk"]
  have "list_all (\<lambda>f. annotation f = Some (root_name ''/data'')) (file_list junk_dataset)" by blast
  with 0 1 2 3 show ?thesis by simp
qed

section \<open>The flat list and the sessions hold the same files\<close>

lemma split_on_no_sep: "seg \<in> set (split_on c s) \<Longrightarrow> c \<notin> set seg"
proof (induction s arbitrary: seg)
  case Nil
  then show ?case by simp
next
  case (Cons x xs)
  then show ?case by (cases "split_on c xs") (auto split: if_splits)
qed

lemma str_to_list_segments: "seg \<in> set (str_to_list p) \<Longrightarrow> seg \<noteq> [] \<and> sep \<notin> set seg"
  by (auto simp: str_to_list_def strip_empty_str_in_list_def dest: split_on_no_sep)

lemma join_on_rel_key:
  "\<forall>seg\<in>set segs. seg \<noteq> [] \<and> sep \<notin> set seg \<Longrightarrow> rel_key (join_on sep segs)"
proof (cases segs)
  case Nil
  then show ?thesis by (simp add: rel_key_def)
next
  case (Cons x xs)
  assume a: "\<forall>seg\<in>set segs. seg \<noteq> [] \<and> sep \<notin> set seg"
  with Cons have x0: "x \<noteq> []" "sep \<notin> set x" by auto
  then have x: "x \<noteq> []" "hd x \<noteq> sep" by (metis hd_in_set)+
  show ?thesis
  proof (cases xs)
    case Nil
    with Cons x show ?thesis by (simp add: rel_key_def)
  next
    case (Cons y ys)
    with \<open>segs = x # xs\<close> x show ?thesis by (simp add: rel_key_def)
  qed
qed

lemma relpath_rel_key: "rel_key (join_on sep (drop n (str_to_list p)))"
  by (rule join_on_rel_key) (auto dest: in_set_dropD str_to_list_segments)

lemma path_join_inj:
  "rel_key b1 \<Longrightarrow> rel_key b2 \<Longrightarrow> path_join a b1 = path_join a b2 \<Longrightarrow> b1 = b2"
  by (auto simp: path_join_def rel_key_def split: if_splits)

lemma set_alist_update: "set (AList.update k v al) \<subseteq> insert (k, v) (set al)"
  by (induction al) auto

lemma dict_ok_update:
  "dict_ok d \<Longrightarrow> distinct v \<Longrightarrow> rel_key k \<Longrightarrow> dict_ok (AList.update k v d)"
  using set_alist_update[of k v d] by (auto simp: dict_ok_def list_all_iff distinct_update)

lemma store_entry_ok:
  assumes "list_all (\<lambda>e. dict_ok (snd e)) bd" "distinct names" "rel_key key"
  shows "list_all (\<lambda>e. dict_ok (snd e)) (store_entry bd depth key names)"
proof -
  let ?inner = "case map_of bd depth of None \<Rightarrow> [] | Some d \<Rightarrow> d"
  have "dict_ok ?inner"
  proof (cases "map_of bd depth")
    case None
    then show ?thesis by (simp add: dict_ok_def)
  next
    case (Some d)
    then have "(depth, d) \<in> set bd" by (rule map_of_SomeD)
    with assms(1) have "dict_ok d" by (auto simp: list_all_iff)
    with Some show ?thesis by simp
  qed
  then have "dict_ok (AList.update key (sort names) ?inner)"
    using assms(2,3) by (intro dict_ok_update) simp_all
  then show ?thesis
    using assms(1) set_alist_update[of depth "AList.update key (sort names) ?inner" bd]
    by (auto simp: store_entry_def Let_def list_all_iff)
qed

lemma parse_step_ok:
  assumes "list_all (\<lambda>e. dict_ok (snd e)) (files_by_depth p)" "distinct (snd (snd w))"
  shows "list_all (\<lambda>e. dict_ok (snd e)) (files_by_depth (parse_step n dir_only p w))"
proof -
  obtain dirpath dirnames filenames where w: "w = (dirpath, dirnames, filenames)" by (cases w)
  with assms(2) have d: "distinct filenames" by simp
  show ?thesis
    unfolding w parse_step_def Let_def
    using assms(1) d by (auto intro!: store_entry_ok relpath_rel_key)
qed

lemma parse_loop_ok:
  "list_all (\<lambda>e. dict_ok (snd e)) (files_by_depth p) \<Longrightarrow> \<forall>w\<in>set ws. distinct (snd (snd w)) \<Longrightarrow>
     list_all (\<lambda>e. dict_ok (snd e)) (files_by_depth (foldl (parse_step n dir_only) p ws))"
proof (induction ws arbitrary: p)
  case Nil
  then show ?case by simp
next
  case (Cons w ws)
  then show ?case by (simp add: parse_step_ok)
qed

lemma walk_distinct:
  "wf_node t \<Longrightarrow> \<forall>w\<in>set (walk p t). distinct (snd (snd w))"
  "wf_nodes ds \<Longrightarrow> \<forall>w\<in>set (walks p ds). distinct (snd (snd w))"
  by (induction p t and p ds rule: walk_walks.induct) auto

lemma parse_all_ok:
  "wf_fs fs \<Longrightarrow> list_all (\<lambda>e. dict_ok (snd e)) (files_by_depth (parse_all pth dir_only fs))"
  unfolding parse_all_def
proof (rule parse_loop_ok)
  show "list_all (\<lambda>e. dict_ok (snd e))
      (files_by_depth \<lparr>max_depth = 0, files_by_depth = [], dirs_by_depth = []\<rparr>)" by simp
  assume "wf_fs fs"
  then show "\<forall>w\<in>set (os_walk pth fs). distinct (snd (snd w))"
    using walk_distinct(1)[of _ pth] by (cases fs) (simp_all add: os_walk_def wf_fs_def)
qed

lemma parse_all_dict_ok:
  "wf_fs fs \<Longrightarrow> map_of (files_by_depth (parse_all pth dir_only fs)) md = Some d \<Longrightarrow> dict_ok d"
  using parse_all_ok[of fs pth dir_only] by (auto simp: list_all_iff dest!: map_of_SomeD)

lemma make_file_inj:
  "make_file ap sp meta f = Inr r \<Longrightarrow> make_file ap sp meta f' = Inr r \<Longrightarrow> f = f'"
  using make_file_split[of ap sp meta f r] make_file_split[of ap sp meta f' r] by simp

lemma list_all2_make_file_distinct:
  "list_all2 (\<lambda>f r. make_file ap sp meta f = Inr r) fns new \<Longrightarrow> distinct fns \<Longrightarrow> distinct new"
proof (induction rule: list_all2_induct)
  case Nil
  then show ?case by simp
next
  case (Cons f fns r new)
  have "r \<notin> set new"
  proof
    assume "r \<in> set new"
    from list_all2_make_file[OF Cons.hyps(2) this] obtain f' where
      f': "f' \<in> set fns" "make_file ap sp meta f' = Inr r" by blast
    from make_file_inj[OF Cons.hyps(1) f'(2)] f'(1) Cons.prems show False by simp
  qed
  with Cons show ?case by simp
qed

lemma construct_loop_distinct:
  "fold_err (construct_entry ap md ref) c es = Inr c' \<Longrightarrow> dict_ok es \<Longrightarrow>
     distinct (c_file_list c) \<Longrightarrow>
     \<forall>f\<in>set (c_file_list c). \<forall>e\<in>set es. absdir f \<noteq> path_join ap (fst e) \<Longrightarrow>
     distinct (c_file_list c')"
proof (induction es arbitrary: c)
  case Nil
  then show ?case by simp
next
  case (Cons e es)
  from Cons.prems(1) obtain c1 where 1: "construct_entry ap md ref c e = Inr c1"
    and 2: "fold_err (construct_entry ap md ref) c1 es = Inr c'"
    by (auto split: sum.splits)
  from construct_entry_char[OF 1] obtain meta new where
    new: "list_all2 (\<lambda>f r. make_file ap (fst e) meta f = Inr r) (snd e) new"
    and fl: "c_file_list c1 = c_file_list c @ new" by blast
  from Cons.prems(2) have ok: "dict_ok es" and de: "distinct (snd e)" and ke: "rel_key (fst e)"
    and fresh: "fst e \<notin> fst ` set es" and kes: "\<forall>e'\<in>set es. rel_key (fst e')"
    by (auto simp: dict_ok_def list_all_iff)
  have dn: "distinct new" using new de by (rule list_all2_make_file_distinct)
  have ad: "absdir r = path_join ap (fst e)" if "r \<in> set new" for r
  proof -
    from list_all2_make_file[OF new that] obtain f where "make_file ap (fst e) meta f = Inr r" by blast
    from make_file_fields[OF this] show ?thesis by simp
  qed
  have d1: "distinct (c_file_list c1)"
    unfolding fl using Cons.prems(3,4) dn ad by auto
  have "absdir f \<noteq> path_join ap (fst e')" if "f \<in> set (c_file_list c1)" "e' \<in> set es" for f e'
  proof (cases "f \<in> set new")
    case True
    from that(2) fresh have "fst e \<noteq> fst e'" by auto
    with path_join_inj[OF ke, of "fst e'" ap] kes that(2) have "path_join ap (fst e) \<noteq> path_join ap (fst e')"
      by auto
    with ad[OF True] show ?thesis by simp
  next
    case False
    with that fl Cons.prems(4) show ?thesis by auto
  qed
  then show ?case using Cons.IH[OF 2 ok d1] by blast
qed

lemma constructor_distinct:
  assumes "constructor ap md files ref m = Inr (sl, fl)" "map_of files md = Some d" "dict_ok d"
  shows "distinct fl"
proof -
  let ?c0 = "\<lparr>processed = [], c_session_list = [], c_file_list = [], c_modal = MBool m\<rparr>"
  from assms(1,2) obtain c where f: "fold_err (construct_entry ap md ref) ?c0 d = Inr c"
    and fl: "fl = sort_key (\<lambda>x. (subject x, session x, modal x, filename x, fileext x)) (c_file_list c)"
    by (auto simp: constructor_def split: sum.splits)
  from construct_loop_distinct[OF f assms(3)] have "distinct (c_file_list c)" by simp
  then show ?thesis unfolding fl by simp
qed

lemma dataset_init_distinct:
  assumes "wf_fs fs" "dataset_init ref m pth vld None fs st = (Inr d, st')"
  shows "distinct (file_list d)"
proof -
  from dataset_init_char[OF assms(2)] obtain sl where
    c: "constructor pth (max_depth (parse_all pth False fs))
          (files_by_depth (parse_all pth False fs)) ref m = Inr (sl, file_list d)" by blast
  then obtain dct where
    m: "map_of (files_by_depth (parse_all pth False fs)) (max_depth (parse_all pth False fs)) = Some dct"
    by (cases "map_of (files_by_depth (parse_all pth False fs)) (max_depth (parse_all pth False fs))")
       (auto simp: constructor_def)
  from parse_all_dict_ok[OF assms(1) m] have "dict_ok dct" .
  with c m show ?thesis by (rule constructor_distinct)
qed

lemma reachable_distinct: "reachable st d \<Longrightarrow> distinct (file_list d)"
proof (induction rule: reachable.induct)
  case (constructed fs ref m pth vld st d st')
  then show ?case by (rule dataset_init_distinct)
next
  case (filtered st d ref m rx a fs d' st')
  from dataset_filter_char[OF filtered.hyps(2) reachable_consistent[OF filtered.hyps(1)]]
  have "file_list d' = filter (keep_file rx a) (file_list d)" by simp
  with filtered.IH show ?case by simp
next
  case (allocated st d ext)
  then show ?case by simp
qed

text \<open>
  Claim C2. For every facade, after construction and after every \<open>filter\<close> call, the flat
  file list and the files nested in the sessions are the same records: the two hold the
  same records with the same multiplicity, and neither holds a record twice, so every
  record of the flat list is in exactly one session, in one list or bucket and once
  there, and every nested record is in the flat list.
\<close>

theorem indexes_hold_the_same_files:
  assumes "reachable st d"
  shows "mset (file_list d) = mset (nested_files (sessions_of st d)) \<and>
         distinct (file_list d) \<and> distinct (nested_files (sessions_of st d)) \<and>
         set (file_list d) = set (nested_files (sessions_of st d))"
proof -
  from reachable_consistent[OF assms] have m: "mset (file_list d) = mset (nested_files (sessions_of st d))"
    by (simp add: consistent_def indexes_agree_def)
  from reachable_distinct[OF assms] have d: "distinct (file_list d)" .
  from m d have "distinct (nested_files (sessions_of st d))" by (metis mset_eq_imp_distinct_iff)
  moreover from m have "set (file_list d) = set (nested_files (sessions_of st d))" by (rule mset_eq_setD)
  ultimately show ?thesis using m d by simp
qed

theorem indexes_hold_the_same_files_witness:
  "reachable (snd junk_filtered) (projr (fst junk_filtered)) \<and>
   length (file_list (projr (fst junk_filtered))) = 1 \<and>
   mset (file_list (projr (fst junk_filtered))) =
     mset (nested_files (sessions_of (snd junk_filtered) (projr (fst junk_filtered)))) \<and>
   distinct (file_list (projr (fst junk_filtered))) \<and>
   distinct (nested_files (sessions_of (snd junk_filtered) (projr (fst junk_filtered)))) \<and>
   set (file_list (projr (fst junk_filtered))) =
     set (nested_files (sessions_of (snd junk_filtered) (projr (fst junk_filtered))))"
proof -
  have e: "dataset_filter raw_ref True literal_match junk_dataset
       (no_args\<lparr>f_subject := Some (Str ''sub-01'')\<rparr>) (Some tree_junk) junk_store =
       (Inr (projr (fst junk_filtered)), snd junk_filtered)"
    by code_simp
  have r: "reachable (snd junk_filtered) (projr (fst junk_filtered))"
    using junk_reachable e by (rule reachable.filtered)
  have l: "length (file_list (projr (fst junk_filtered))) = 1" by code_simp
  from indexes_hold_the_same_files[OF r] r l show ?thesis by simp
qed

section \<open>A max depth that is neither reference depth\<close>

text \<open>
  What does hold for every scanned tree whose max depth is not a reference depth: the
  validator raises the depth error; the constructor raises it when the scan recorded
  files at max depth and \<open>KeyError\<close> otherwise; no facade is built.
\<close>

lemma validator_depth_error:
  "md \<notin> set (ref_list ref) \<Longrightarrow>
     validator dirs files md ref m dir_only =
       Inl (DepthError md (single_session ref) (multi_session ref))"
  by (simp add: validator_def)

lemma alist_update_nonempty: "AList.update k v al \<noteq> []"
  by (cases al) auto

lemma store_entry_nonempty:
  assumes "list_all (\<lambda>e. snd e \<noteq> []) bd"
  shows "list_all (\<lambda>e. snd e \<noteq> []) (store_entry bd depth key names)"
  using assms set_alist_update[of depth
      "AList.update key (sort names) (case map_of bd depth of None \<Rightarrow> [] | Some d \<Rightarrow> d)" bd]
  by (auto simp: store_entry_def Let_def list_all_iff alist_update_nonempty)

lemma parse_step_nonempty:
  "list_all (\<lambda>e. snd e \<noteq> []) (files_by_depth p) \<Longrightarrow>
     list_all (\<lambda>e. snd e \<noteq> []) (files_by_depth (parse_step n dir_only p w))"
  by (cases w) (auto simp: parse_step_def Let_def intro: store_entry_nonempty)

lemma parse_loop_nonempty:
  "list_all (\<lambda>e. snd e \<noteq> []) (files_by_depth p) \<Longrightarrow>
     list_all (\<lambda>e. snd e \<noteq> []) (files_by_depth (foldl (parse_step n dir_only) p ws))"
  by (induction ws arbitrary: p) (simp_all add: parse_step_nonempty)

lemma parse_all_nonempty:
  "map_of (files_by_depth (parse_all pth dir_only fs)) md = Some d \<Longrightarrow> d \<noteq> []"
proof -
  have "list_all (\<lambda>e. snd e \<noteq> []) (files_by_depth (parse_all pth dir_only fs))"
    unfolding parse_all_def by (rule parse_loop_nonempty) simp
  moreover assume "map_of (files_by_depth (parse_all pth dir_only fs)) md = Some d"
  ultimately show ?thesis by (auto simp: list_all_iff dest!: map_of_SomeD)
qed

lemma parse_meta_depth_error:
  "md \<notin> set (ref_list ref) \<Longrightarrow>
     parse_meta md ref mv sp = Inl (DepthError md (single_session ref) (multi_session ref))"
  by (simp add: parse_meta_def ref_list_def Let_def)

lemma constructor_depth_error:
  assumes "md \<notin> set (ref_list ref)" "map_of files md = Some d" "d \<noteq> []"
  shows "constructor ap md files ref m = Inl (DepthError md (single_session ref) (multi_session ref))"
proof -
  from assms(3) obtain e es where d: "d = e # es" by (cases d) auto
  show ?thesis
    by (simp add: constructor_def assms(2) d construct_entry_def parse_meta_depth_error[OF assms(1)])
qed

lemma depth_mismatch_outcomes:
  assumes "max_depth (parse_all pth False fs) \<notin> set (ref_list ref)"
  shows "validator (dirs_by_depth (parse_all pth False fs)) (files_by_depth (parse_all pth False fs))
           (max_depth (parse_all pth False fs)) ref m False =
           Inl (DepthError (max_depth (parse_all pth False fs)) (single_session ref) (multi_session ref))"
    and "constructor pth (max_depth (parse_all pth False fs)) (files_by_depth (parse_all pth False fs)) ref m =
           (case map_of (files_by_depth (parse_all pth False fs)) (max_depth (parse_all pth False fs)) of
              None \<Rightarrow> Inl (KeyError_depth (max_depth (parse_all pth False fs)))
            | Some d \<Rightarrow> Inl (DepthError (max_depth (parse_all pth False fs))
                              (single_session ref) (multi_session ref)))"
    and "\<exists>e. fst (dataset_init ref m pth vld None fs st) = Inl e"
proof -
  let ?p = "parse_all pth False fs"
  show v: "validator (dirs_by_depth ?p) (files_by_depth ?p) (max_depth ?p) ref m False =
      Inl (DepthError (max_depth ?p) (single_session ref) (multi_session ref))"
    using assms by (rule validator_depth_error)
  show c: "constructor pth (max_depth ?p) (files_by_depth ?p) ref m =
           (case map_of (files_by_depth ?p) (max_depth ?p) of
              None \<Rightarrow> Inl (KeyError_depth (max_depth ?p))
            | Some d \<Rightarrow> Inl (DepthError (max_depth ?p) (single_session ref) (multi_session ref)))"
  proof (cases "map_of (files_by_depth ?p) (max_depth ?p)")
    case None
    then show ?thesis by (simp add: constructor_def)
  next
    case (Some d)
    from constructor_depth_error[OF assms Some parse_all_nonempty[OF Some]] Some show ?thesis by simp
  qed
  then obtain e where "constructor pth (max_depth ?p) (files_by_depth ?p) ref m = Inl e"
    by (cases "map_of (files_by_depth ?p) (max_depth ?p)") auto
  then show "\<exists>e. fst (dataset_init ref m pth vld None fs st) = Inl e"
    by (rule dataset_init_fails_with_constructor)
qed

end
